theory Spec2Isabelle
  imports Main "HOL-Library.AList" "HOL-Library.Sublist"
begin

section \<open>Decoded documents and the JavaScript operations the parser applies to them\<close>

text \<open>
  The parser (\<^verbatim>\<open>OpenAPIParser\<close>, TypeScript) receives an already decoded document typed
  \<^verbatim>\<open>Record<string, any>\<close> and reads it dynamically. A value is modelled by the datatype
  below. \<open>JUndefined\<close> is what reading an absent property yields; a decoded document does
  not contain it. An object is the list of its entries in the order in which its keys were
  created (for a decoded document, the order of the text), with distinct keys; \<open>entries\<close>
  gives them in the order in which \<^verbatim>\<open>Object.entries\<close> enumerates them. Numbers are
  abstracted to integers: the parser only tests them for truthiness, compares a
  \<^verbatim>\<open>length\<close> with zero and prints them.
  Strings are lists of 8-bit characters and case conversion acts on the ASCII letters.
  The values of the model are the values of a decoded document. Where the program would
  leave them (a pointer segment that names a member inherited from a JavaScript
  prototype, an assignment to the key \<^verbatim>\<open>__proto__\<close>), the model stops with the outcome
  \<open>Unmodelled\<close> instead of a value.
\<close>

datatype json =
    JUndefined
  | JNull
  | JBool bool
  | JNum int
  | JStr string
  | JArr "json list"
  | JObj "(string \<times> json) list"

text \<open>
  What a call can throw. \<open>SchemaDiscoveryError\<close> carries its message. \<open>TypeError\<close> is
  the error the JavaScript runtime raises (calling a missing method, reading a property
  of \<^verbatim>\<open>undefined\<close>, \<^verbatim>\<open>in\<close> on a primitive, iterating a non-iterable). \<open>Unmodelled\<close>
  is not an error of the program: it marks the operations whose JavaScript meaning is
  not modelled, and no \<^verbatim>\<open>catch\<close> of the program sees it. These are the numeric
  conversion of a string inside a comparison, the lookup of a pointer segment that is not
  an own key but names a member inherited from \<^verbatim>\<open>Object.prototype\<close> or
  \<^verbatim>\<open>Array.prototype\<close> (the program goes on with a function or a prototype object), and
  the assignment \<^verbatim>\<open>result[key] = value\<close> for the key \<^verbatim>\<open>__proto__\<close> (it runs the
  prototype setter instead of creating an entry).
\<close>

datatype error =
    TypeError
  | SchemaDiscoveryError string
  | Unmodelled

type_synonym memo = "(string \<times> json) list"

definition truthy :: "json \<Rightarrow> bool" where
  "truthy v =
     (case v of
        JUndefined \<Rightarrow> False
      | JNull \<Rightarrow> False
      | JBool b \<Rightarrow> b
      | JNum n \<Rightarrow> n \<noteq> 0
      | JStr s \<Rightarrow> s \<noteq> []
      | JArr _ \<Rightarrow> True
      | JObj _ \<Rightarrow> True)"

definition js_or :: "json \<Rightarrow> json \<Rightarrow> json" where
  "js_or a b = (if truthy a then a else b)"

definition is_object :: "json \<Rightarrow> bool" where
  "is_object v = (case v of JArr _ \<Rightarrow> True | JObj _ \<Rightarrow> True | _ \<Rightarrow> False)"

definition digit_val :: "char \<Rightarrow> nat option" where
  "digit_val c = map_of (zip ''0123456789'' [0 ..< 10]) c"

fun digits_val :: "nat \<Rightarrow> string \<Rightarrow> nat option" where
  "digits_val acc [] = Some acc"
| "digits_val acc (c # cs) =
     (case digit_val c of None \<Rightarrow> None | Some d \<Rightarrow> digits_val (10 * acc + d) cs)"

definition array_index :: "string \<Rightarrow> nat option" where
  "array_index s =
     (if s = [] then None
      else if hd s = CHR ''0'' \<and> tl s \<noteq> [] then None
      else digits_val 0 s)"

definition digit_char :: "nat \<Rightarrow> char" where
  "digit_char d = ''0123456789'' ! d"

function show_nat :: "nat \<Rightarrow> string" where
  "show_nat n = (if n < 10 then [digit_char n] else show_nat (n div 10) @ [digit_char (n mod 10)])"
  by pat_completeness auto
termination show_nat
  by (relation "measure id") auto

declare show_nat.simps [simp del]

definition show_int :: "int \<Rightarrow> string" where
  "show_int i = (if i < 0 then CHR ''-'' # show_nat (nat (- i)) else show_nat (nat i))"

fun join :: "string \<Rightarrow> string list \<Rightarrow> string" where
  "join sep [] = []"
| "join sep [w] = w"
| "join sep (w # ws) = w @ sep @ join sep ws"

fun to_String :: "json \<Rightarrow> string" where
  "to_String JUndefined = ''undefined''"
| "to_String JNull = ''null''"
| "to_String (JBool b) = (if b then ''true'' else ''false'')"
| "to_String (JNum n) = show_int n"
| "to_String (JStr s) = s"
| "to_String (JArr xs) =
     join '','' (map (\<lambda>x. if x = JUndefined \<or> x = JNull then [] else to_String x) xs)"
| "to_String (JObj kvs) = ''[object Object]''"

definition has_key :: "string \<Rightarrow> (string \<times> json) list \<Rightarrow> bool" where
  "has_key k kvs = (map_of kvs k \<noteq> None)"

definition js_in :: "string \<Rightarrow> json \<Rightarrow> bool" where
  "js_in k v =
     (case v of
        JObj kvs \<Rightarrow> has_key k kvs
      | JArr xs \<Rightarrow> k = ''length'' \<or> (case array_index k of None \<Rightarrow> False | Some i \<Rightarrow> i < length xs)
      | _ \<Rightarrow> False)"

definition js_in_checked :: "string \<Rightarrow> json \<Rightarrow> error + bool" where
  "js_in_checked k v = (if is_object v then Inr (js_in k v) else Inl TypeError)"

definition getProp :: "json \<Rightarrow> string \<Rightarrow> json" where
  "getProp v k =
     (case v of
        JObj kvs \<Rightarrow> (case map_of kvs k of None \<Rightarrow> JUndefined | Some x \<Rightarrow> x)
      | JArr xs \<Rightarrow>
          (if k = ''length'' then JNum (int (length xs))
           else case array_index k of
                  None \<Rightarrow> JUndefined
                | Some i \<Rightarrow> if i < length xs then xs ! i else JUndefined)
      | JStr s \<Rightarrow>
          (if k = ''length'' then JNum (int (length s))
           else case array_index k of
                  None \<Rightarrow> JUndefined
                | Some i \<Rightarrow> if i < length s then JStr [s ! i] else JUndefined)
      | _ \<Rightarrow> JUndefined)"

fun indexed :: "nat \<Rightarrow> json list \<Rightarrow> (string \<times> json) list" where
  "indexed i [] = []"
| "indexed i (x # xs) = (show_nat i, x) # indexed (Suc i) xs"

text \<open>
  The order of the own keys of an object: the keys that are array indices (canonical
  decimal numerals below 4294967295) come first, in ascending numeric order, and the
  other keys follow in the order of their creation. An assignment to a new key creates
  it last (\<open>AList.update\<close>), an assignment to an existing key keeps its place.
\<close>

definition property_index :: "string \<Rightarrow> nat option" where
  "property_index k =
     (case array_index k of
        None \<Rightarrow> None
      | Some i \<Rightarrow> if i < 4294967295 then Some i else None)"

definition index_key :: "string \<times> json \<Rightarrow> bool" where
  "index_key kv = (property_index (fst kv) \<noteq> None)"

definition index_value :: "string \<times> json \<Rightarrow> nat" where
  "index_value kv = (case property_index (fst kv) of None \<Rightarrow> 0 | Some i \<Rightarrow> i)"

definition own_entries :: "(string \<times> json) list \<Rightarrow> (string \<times> json) list" where
  "own_entries kvs =
     sort_key index_value (filter index_key kvs) @ filter (\<lambda>kv. \<not> index_key kv) kvs"

definition entries :: "json \<Rightarrow> (string \<times> json) list" where
  "entries v =
     (case v of
        JObj kvs \<Rightarrow> own_entries kvs
      | JArr xs \<Rightarrow> indexed 0 xs
      | JStr s \<Rightarrow> indexed 0 (map (\<lambda>c. JStr [c]) s)
      | _ \<Rightarrow> [])"

definition iterate :: "json \<Rightarrow> error + json list" where
  "iterate v =
     (case v of
        JArr xs \<Rightarrow> Inr xs
      | JStr s \<Rightarrow> Inr (map (\<lambda>c. JStr [c]) s)
      | _ \<Rightarrow> Inl TypeError)"


definition startsWith :: "string \<Rightarrow> string \<Rightarrow> bool" where
  "startsWith s p = (take (length p) s = p)"

fun split :: "char \<Rightarrow> string \<Rightarrow> string list" where
  "split sep [] = [[]]"
| "split sep (c # cs) =
     (if c = sep then [] # split sep cs
      else case split sep cs of [] \<Rightarrow> [[c]] | w # ws \<Rightarrow> (c # w) # ws)"

definition is_upper :: "char \<Rightarrow> bool" where
  "is_upper c = (c \<in> set ''ABCDEFGHIJKLMNOPQRSTUVWXYZ'')"

definition is_lower :: "char \<Rightarrow> bool" where
  "is_lower c = (c \<in> set ''abcdefghijklmnopqrstuvwxyz'')"

definition is_digit :: "char \<Rightarrow> bool" where
  "is_digit c = (c \<in> set ''0123456789'')"

definition lower_char :: "char \<Rightarrow> char" where
  "lower_char c =
     (case map_of (zip ''ABCDEFGHIJKLMNOPQRSTUVWXYZ'' ''abcdefghijklmnopqrstuvwxyz'') c of
        None \<Rightarrow> c
      | Some d \<Rightarrow> d)"

definition upper_char :: "char \<Rightarrow> char" where
  "upper_char c =
     (case map_of (zip ''abcdefghijklmnopqrstuvwxyz'' ''ABCDEFGHIJKLMNOPQRSTUVWXYZ'') c of
        None \<Rightarrow> c
      | Some d \<Rightarrow> d)"

definition toLowerCase :: "string \<Rightarrow> string" where
  "toLowerCase s = map lower_char s"

definition toUpperCase :: "string \<Rightarrow> string" where
  "toUpperCase s = map upper_char s"

section \<open>Reference resolution\<close>

text \<open>
  The string-named members that objects and arrays inherit. The lists hold the members
  of the ECMAScript standard and the legacy and proposed ones that engines have shipped;
  a name listed here that an engine does not define only makes the model stop earlier.
\<close>

definition object_prototype_members :: "string list" where
  "object_prototype_members =
     [''constructor'', ''hasOwnProperty'', ''isPrototypeOf'', ''propertyIsEnumerable'',
      ''toLocaleString'', ''toString'', ''valueOf'', ''__proto__'', ''__defineGetter__'',
      ''__defineSetter__'', ''__lookupGetter__'', ''__lookupSetter__'', ''toSource'',
      ''watch'', ''unwatch'', ''__noSuchMethod__'', ''__count__'', ''__parent__'']"

definition array_prototype_members :: "string list" where
  "array_prototype_members =
     [''at'', ''concat'', ''copyWithin'', ''entries'', ''every'', ''fill'', ''filter'',
      ''find'', ''findIndex'', ''findLast'', ''findLastIndex'', ''flat'', ''flatMap'',
      ''forEach'', ''includes'', ''indexOf'', ''join'', ''keys'', ''lastIndexOf'', ''map'',
      ''pop'', ''push'', ''reduce'', ''reduceRight'', ''reverse'', ''shift'', ''slice'',
      ''some'', ''sort'', ''splice'', ''toReversed'', ''toSorted'', ''toSpliced'',
      ''unshift'', ''values'', ''with'', ''group'', ''groupBy'', ''groupToMap'',
      ''groupByToMap'', ''flatten'', ''lastItem'', ''lastIndex'', ''item'', ''unique'',
      ''uniqueBy'', ''findFromLast'', ''contains'']"

definition inherited_member :: "string \<Rightarrow> json \<Rightarrow> bool" where
  "inherited_member part current =
     (case current of
        JObj kvs \<Rightarrow> part \<in> set object_prototype_members
      | JArr xs \<Rightarrow> part \<in> set (array_prototype_members @ object_prototype_members)
      | _ \<Rightarrow> False)"

definition setProp :: "string \<Rightarrow> json \<Rightarrow> (string \<times> json) list \<Rightarrow> error + (string \<times> json) list" where
  "setProp key v result =
     (if key = ''__proto__'' then Inl Unmodelled else Inr (AList.update key v result))"

fun walk :: "json \<Rightarrow> string list \<Rightarrow> error + json" where
  "walk current [] = Inr current"
| "walk current (part # parts) =
     (if current \<noteq> JNull \<and> is_object current \<and> js_in part current
      then walk (getProp current part) parts
      else if current \<noteq> JNull \<and> is_object current \<and> inherited_member part current
      then Inl Unmodelled
      else Inr JNull)"

definition lookupRef :: "json \<Rightarrow> string \<Rightarrow> error + json" where
  "lookupRef root refPath =
     (if \<not> startsWith refPath ''#/'' then Inr JNull
      else walk root (split CHR ''/'' (drop 2 refPath)))"

definition polymorphicKeyword :: "(string \<times> json) list \<Rightarrow> string option" where
  "polymorphicKeyword kvs =
     (if has_key ''anyOf'' kvs then Some ''anyOf''
      else if has_key ''oneOf'' kvs then Some ''oneOf''
      else if has_key ''allOf'' kvs then Some ''allOf''
      else None)"

definition isObjectSchema :: "json \<Rightarrow> error + bool" where
  "isObjectSchema resolved =
     (case resolved of
        JObj kvs \<Rightarrow> Inr (getProp resolved ''type'' = JStr ''object'' \<or> has_key ''properties'' kvs)
      | JArr xs \<Rightarrow> Inr False
      | _ \<Rightarrow> Inl TypeError)"

text \<open>
  The test made on a reference under a polymorphic keyword (lines 536-550): the node is
  kept when the target was found and is an object schema, or when the test itself threw
  (the \<^verbatim>\<open>catch\<close> returns the node).
\<close>

definition keptUnexpanded :: "json \<Rightarrow> string \<Rightarrow> error + bool" where
  "keptUnexpanded root refPath =
     (case lookupRef root refPath of
        Inl e \<Rightarrow> Inl e
      | Inr resolved \<Rightarrow>
          Inr (resolved \<noteq> JNull \<and>
               (case isObjectSchema resolved of Inl e \<Rightarrow> True | Inr keep \<Rightarrow> keep)))"

definition circularPlaceholder :: json where
  "circularPlaceholder =
     JObj [(''type'', JStr ''object''), (''description'', JStr ''Circular reference'')]"

definition unresolvedPlaceholder :: json where
  "unresolvedPlaceholder =
     JObj [(''type'', JStr ''object''), (''description'', JStr ''Unresolved reference'')]"

fun strs :: "json \<Rightarrow> string set" where
  "strs (JStr s) = {s}"
| "strs (JArr xs) = (\<Union>x\<in>set xs. strs x)"
| "strs (JObj kvs) = (\<Union>p\<in>set kvs. strs (snd p))"
| "strs _ = {}"

function resolveRefs :: "json \<Rightarrow> json \<Rightarrow> string list \<Rightarrow> memo \<Rightarrow> bool \<Rightarrow> (error + json) \<times> memo"
  and resolveItems :: "json list \<Rightarrow> json \<Rightarrow> string list \<Rightarrow> memo \<Rightarrow> bool \<Rightarrow> (error + json list) \<times> memo"
  and resolveEntries :: "(string \<times> json) list \<Rightarrow> string option \<Rightarrow> (string \<times> json) list \<Rightarrow>
        json \<Rightarrow> string list \<Rightarrow> memo \<Rightarrow> bool \<Rightarrow> (error + (string \<times> json) list) \<times> memo"
where
  "resolveRefs obj root0 resolutionStack memo insidePolymorphicKeyword =
     (let root = (if root0 = JUndefined then obj else root0) in
      case obj of
        JObj kvs \<Rightarrow>
          (case polymorphicKeyword kvs of
             Some kw \<Rightarrow>
               (case getProp obj kw of
                  JArr items \<Rightarrow>
                    (case resolveItems items root resolutionStack memo True of
                       (Inl e, memo1) \<Rightarrow> (Inl e, memo1)
                     | (Inr items', memo1) \<Rightarrow>
                         (case resolveEntries (entries obj) (Some kw) [(kw, JArr items')] root
                                 resolutionStack memo1 insidePolymorphicKeyword of
                            (Inl e, memo2) \<Rightarrow> (Inl e, memo2)
                          | (Inr result, memo2) \<Rightarrow> (Inr (JObj result), memo2)))
                | _ \<Rightarrow> (Inl TypeError, memo))
           | None \<Rightarrow>
               if has_key ''$ref'' kvs \<and> length kvs = 1 then
                 (case getProp obj ''$ref'' of
                    JStr refPath \<Rightarrow>
                      if \<not> startsWith refPath ''#/'' then (Inr obj, memo)
                      else
                        (case (if insidePolymorphicKeyword then keptUnexpanded root refPath
                               else Inr False) of
                           Inl e \<Rightarrow> (Inl e, memo)
                         | Inr kept \<Rightarrow>
                             if kept then (Inr obj, memo)
                             else if has_key refPath memo
                             then (Inr (getProp (JObj memo) refPath), memo)
                             else if refPath \<in> set resolutionStack then
                               (Inr circularPlaceholder,
                                AList.update refPath circularPlaceholder memo)
                             else
                               (case lookupRef root refPath of
                                  Inl e \<Rightarrow> (Inl e, memo)
                                | Inr resolved \<Rightarrow>
                                    if resolved \<noteq> JNull then
                                      (case resolveRefs resolved root (resolutionStack @ [refPath])
                                              memo insidePolymorphicKeyword of
                                         (Inr resolvedObj, memo1) \<Rightarrow>
                                           (Inr resolvedObj, AList.update refPath resolvedObj memo1)
                                       | (Inl e, memo1) \<Rightarrow>
                                           if e = Unmodelled then (Inl e, memo1)
                                           else
                                             (Inr unresolvedPlaceholder,
                                              AList.update refPath unresolvedPlaceholder memo1))
                                    else (Inr obj, memo)))
                  | _ \<Rightarrow> (Inl TypeError, memo))
               else
                 (case resolveEntries (entries obj) None [] root resolutionStack memo
                         insidePolymorphicKeyword of
                    (Inl e, memo1) \<Rightarrow> (Inl e, memo1)
                  | (Inr result, memo1) \<Rightarrow> (Inr (JObj result), memo1)))
      | JArr xs \<Rightarrow>
          (case resolveItems xs root resolutionStack memo insidePolymorphicKeyword of
             (Inl e, memo1) \<Rightarrow> (Inl e, memo1)
           | (Inr ys, memo1) \<Rightarrow> (Inr (JArr ys), memo1))
      | _ \<Rightarrow> (Inr obj, memo))"
| "resolveItems [] root resolutionStack memo inside = (Inr [], memo)"
| "resolveItems (item # items) root resolutionStack memo inside =
     (case resolveRefs item root resolutionStack memo inside of
        (Inl e, memo1) \<Rightarrow> (Inl e, memo1)
      | (Inr y, memo1) \<Rightarrow>
          (case resolveItems items root resolutionStack memo1 inside of
             (Inl e, memo2) \<Rightarrow> (Inl e, memo2)
           | (Inr ys, memo2) \<Rightarrow> (Inr (y # ys), memo2)))"
| "resolveEntries [] skip result root resolutionStack memo inside = (Inr result, memo)"
| "resolveEntries ((k, v) # rest) skip result root resolutionStack memo inside =
     (if skip = Some k then resolveEntries rest skip result root resolutionStack memo inside
      else
        case resolveRefs v root resolutionStack memo inside of
          (Inl e, memo1) \<Rightarrow> (Inl e, memo1)
        | (Inr v', memo1) \<Rightarrow>
            (case setProp k v' result of
               Inl e \<Rightarrow> (Inl e, memo1)
             | Inr result' \<Rightarrow>
                 resolveEntries rest skip result' root resolutionStack memo1 inside))"
  by pat_completeness auto

text \<open>
  Termination of the resolver. Every pointer that is followed is a string of the node
  being resolved and is not yet on the resolution stack; its target is a subtree of the
  root. So the strings of the node and of the root that are not on the stack become
  fewer each time a pointer is followed, and the node becomes smaller otherwise.
\<close>

lemma finite_strs: "finite (strs v)"
  by (induction v rule: strs.induct) auto

lemma strs_map_of: "map_of kvs k = Some v \<Longrightarrow> strs v \<subseteq> (\<Union>p\<in>set kvs. strs (snd p))"
  by (induction kvs) (auto split: if_splits)

lemma strs_getProp: "is_object v \<Longrightarrow> strs (getProp v k) \<subseteq> strs v"
  by (cases v) (auto simp: getProp_def is_object_def dest: strs_map_of nth_mem split: option.splits if_splits)

lemma strs_walk: "walk cur parts = Inr t \<Longrightarrow> strs t \<subseteq> strs cur"
proof (induction parts arbitrary: cur)
  case Nil
  then show ?case by simp
next
  case (Cons p ps)
  show ?case
  proof (cases "cur \<noteq> JNull \<and> is_object cur \<and> js_in p cur")
    case True
    with Cons.prems have "walk (getProp cur p) ps = Inr t"
      by simp
    then have "strs t \<subseteq> strs (getProp cur p)"
      by (rule Cons.IH)
    also have "\<dots> \<subseteq> strs cur"
      using True by (simp add: strs_getProp)
    finally show ?thesis .
  next
    case False
    with Cons.prems have "t = JNull"
      by (auto split: if_splits)
    then show ?thesis by simp
  qed
qed

lemma strs_lookupRef: "lookupRef root p = Inr t \<Longrightarrow> strs t \<subseteq> strs root"
  using strs_walk by (auto simp: lookupRef_def split: if_splits)

lemma size_map_of: "map_of kvs k = Some v \<Longrightarrow> size v \<le> size_list (size_prod (\<lambda>x. 0) size) kvs"
  by (induction kvs) (auto split: if_splits)

lemma set_own_entries: "set (own_entries kvs) = set kvs"
  by (auto simp: own_entries_def)

lemma size_list_insort_key:
  "size_list f (insort_key k x xs) = Suc (f x + size_list f xs)"
  by (induction xs) auto

lemma size_list_sort_key: "size_list f (sort_key k xs) = size_list f xs"
  by (induction xs) (auto simp: size_list_insort_key)

lemma size_list_partition:
  "size_list f (filter P xs) + size_list f (filter (\<lambda>x. \<not> P x) xs) = size_list f xs"
  by (induction xs) auto

lemma size_list_own_entries: "size_list f (own_entries kvs) = size_list f kvs"
  by (simp add: own_entries_def size_list_sort_key size_list_partition)

lemma entries_JObj:
  "strs (JObj (entries (JObj kvs))) = strs (JObj kvs)"
  "size_list f (entries (JObj kvs)) = size_list f kvs"
  by (simp_all add: entries_def set_own_entries size_list_own_entries)

definition refs_left :: "json \<Rightarrow> json \<Rightarrow> string list \<Rightarrow> nat" where
  "refs_left obj root st = card ((strs obj \<union> strs root) - set st)"

lemma refs_left_mono:
  assumes "strs obj' \<union> strs root' \<subseteq> strs obj \<union> strs root"
  shows "refs_left obj' root' st \<le> refs_left obj root st"
  unfolding refs_left_def using assms
  by (intro card_mono) (auto simp: finite_strs)

lemma refs_left_less:
  assumes "strs obj' \<union> strs root' \<subseteq> strs obj \<union> strs root"
    and "p \<in> strs obj" and "p \<notin> set st"
  shows "refs_left obj' root' (st @ [p]) < refs_left obj root st"
  unfolding refs_left_def using assms
  by (intro psubset_card_mono) (auto simp: finite_strs)

lemma strs_default_root:
  "strs (if root0 = JUndefined then obj else root0) \<subseteq> strs obj \<union> strs root0"
  by simp

lemma getProp_JObj_strs: "getProp (JObj kvs) k = v \<Longrightarrow> strs v \<subseteq> strs (JObj kvs)"
  using strs_getProp [of "JObj kvs" k] by (simp add: is_object_def)

lemma getProp_JObj_size: "getProp (JObj kvs) k = JArr items \<Longrightarrow> size_list size items < size (JObj kvs)"
  by (auto simp: getProp_def split: option.splits dest!: size_map_of)

definition resolve_measure1 ::
  "(json \<times> json \<times> string list \<times> memo \<times> bool) +
   (json list \<times> json \<times> string list \<times> memo \<times> bool) +
   ((string \<times> json) list \<times> string option \<times> (string \<times> json) list \<times> json \<times> string list \<times> memo \<times> bool)
   \<Rightarrow> nat" where
  "resolve_measure1 x =
     (case x of
        Inl (obj, root, st, m, b) \<Rightarrow> refs_left obj root st
      | Inr (Inl (xs, root, st, m, b)) \<Rightarrow> refs_left (JArr xs) root st
      | Inr (Inr (kvs, skip, res, root, st, m, b)) \<Rightarrow> refs_left (JObj kvs) root st)"

definition resolve_measure2 ::
  "(json \<times> json \<times> string list \<times> memo \<times> bool) +
   (json list \<times> json \<times> string list \<times> memo \<times> bool) +
   ((string \<times> json) list \<times> string option \<times> (string \<times> json) list \<times> json \<times> string list \<times> memo \<times> bool)
   \<Rightarrow> nat" where
  "resolve_measure2 x =
     (case x of
        Inl (obj, root, st, m, b) \<Rightarrow> size obj
      | Inr (Inl (xs, root, st, m, b)) \<Rightarrow> size_list size xs
      | Inr (Inr (kvs, skip, res, root, st, m, b)) \<Rightarrow> size_list (size_prod (\<lambda>x. 0) size) kvs)"

lemma resolve_descend:
  "resolve_measure1 x \<le> resolve_measure1 y \<Longrightarrow> resolve_measure2 x < resolve_measure2 y \<Longrightarrow>
   (x, y) \<in> resolve_measure1 <*mlex*> measure resolve_measure2"
  by (simp add: mlex_leq)

lemma resolveRefs_dom_all: "All resolveRefs_resolveItems_resolveEntries_dom"
proof (relation "resolve_measure1 <*mlex*> measure resolve_measure2", goal_cases)
  case 1
  show ?case by (simp add: wf_mlex)
next
  case (2 obj root0 st m b root xs)
  show ?case
    by (rule resolve_descend)
       (use 2 in \<open>auto simp: resolve_measure1_def resolve_measure2_def intro!: refs_left_mono\<close>)
next
  case (3 obj root0 st m b root kvs refPath kept resolved)
  have "refPath \<in> strs obj"
    using 3(2,5) getProp_JObj_strs [of kvs "''$ref''" "JStr refPath"] by simp
  moreover have "strs resolved \<subseteq> strs root"
    using 3 strs_lookupRef by blast
  ultimately have "refs_left resolved root (st @ [refPath]) < refs_left obj root0 st"
    using 3 by (intro refs_left_less) auto
  then show ?case by (simp add: mlex_less resolve_measure1_def)
next
  case (4 obj root0 st m b root kvs)
  show ?case
    by (rule resolve_descend)
       (use 4 in \<open>auto simp: resolve_measure1_def resolve_measure2_def entries_JObj
          simp del: strs.simps intro!: refs_left_mono\<close>)
next
  case (5 obj root0 st m b root kvs kw items)
  have a: "strs (JArr items) \<subseteq> strs obj"
    using 5 getProp_JObj_strs [of kvs kw "JArr items"] by simp
  have "strs root \<subseteq> strs obj \<union> strs root0"
    using 5 by simp
  with a have "strs (JArr items) \<union> strs root \<subseteq> strs obj \<union> strs root0"
    by blast
  then have "refs_left (JArr items) root st \<le> refs_left obj root0 st"
    by (rule refs_left_mono)
  moreover have "size_list size items < size obj"
    using 5 getProp_JObj_size by simp
  ultimately show ?case
    by (intro resolve_descend) (simp_all add: resolve_measure1_def resolve_measure2_def)
next
  case (6 obj root0 st m b root kvs kw items r m1 items')
  show ?case
    by (rule resolve_descend)
       (use 6 in \<open>auto simp: resolve_measure1_def resolve_measure2_def entries_JObj
          simp del: strs.simps intro!: refs_left_mono\<close>)
next
  case (7 item items root st m b)
  show ?case
    by (rule resolve_descend)
       (auto simp: resolve_measure1_def resolve_measure2_def intro!: refs_left_mono)
next
  case (8 item items root st m b r m1 y)
  show ?case
    by (rule resolve_descend)
       (auto simp: resolve_measure1_def resolve_measure2_def intro!: refs_left_mono)
next
  case (9 k v rest skip res root st m b)
  show ?case
    by (rule resolve_descend)
       (auto simp: resolve_measure1_def resolve_measure2_def intro!: refs_left_mono)
next
  case (10 k v rest skip res root st m b)
  show ?case
    by (rule resolve_descend)
       (auto simp: resolve_measure1_def resolve_measure2_def intro!: refs_left_mono)
next
  case (11 k v rest skip res root st m b r m1 v')
  show ?case
    by (rule resolve_descend)
       (auto simp: resolve_measure1_def resolve_measure2_def intro!: refs_left_mono)
qed

termination resolveRefs
  by (rule resolveRefs_dom_all)

declare resolveRefs.simps [simp del]


section \<open>Tool names\<close>

fun pascalSplit :: "string \<Rightarrow> string" where
  "pascalSplit (a # b # rest) =
     (if (is_lower a \<or> is_digit a) \<and> is_upper b
      then a # CHR '' '' # b # pascalSplit rest
      else a # pascalSplit (b # rest))"
| "pascalSplit s = s"

definition is_separator :: "char \<Rightarrow> bool" where
  "is_separator c = (c \<in> set ''/_.-'')"

function separatorsToSpace :: "string \<Rightarrow> string" where
  "separatorsToSpace [] = []"
| "separatorsToSpace (c # cs) =
     (if is_separator c then CHR '' '' # separatorsToSpace (dropWhile is_separator cs)
      else c # separatorsToSpace cs)"
  by pat_completeness auto
termination separatorsToSpace
  by (relation "measure length") (auto simp: le_imp_less_Suc length_dropWhile_le)

definition capitalize :: "string \<Rightarrow> string" where
  "capitalize w = (case w of [] \<Rightarrow> [] | c # cs \<Rightarrow> upper_char c # toLowerCase cs)"

definition normalizeToolName :: "string \<Rightarrow> string" where
  "normalizeToolName name =
     (if name = [] then name
      else
        let pascalSplit = pascalSplit name;
            normalized = separatorsToSpace pascalSplit;
            words = filter (\<lambda>word. word \<noteq> []) (split CHR '' '' normalized)
        in case words of
             [] \<Rightarrow> name
           | w # ws \<Rightarrow> concat (toLowerCase w # map capitalize ws))"

definition isValidToolName :: "string \<Rightarrow> bool" where
  "isValidToolName name =
     (if name = [] then False
      else if \<not> (is_lower (hd name) \<or> is_upper (hd name)) then False
      else if \<not> list_ex (\<lambda>c. is_lower c \<or> is_upper c \<or> is_digit c) name then False
      else True)"

section \<open>Version detection and base URL\<close>

definition detectSpecVersion :: "json \<Rightarrow> error + string" where
  "detectSpecVersion spec =
     (if \<not> is_object spec then Inl TypeError
      else if js_in ''swagger'' spec then
        (let swaggerVersion = getProp spec ''swagger'' in
         case swaggerVersion of
           JStr v \<Rightarrow>
             if startsWith v ''2.'' then Inr ''swagger_2''
             else Inl (SchemaDiscoveryError (''Unsupported Swagger version: '' @ to_String swaggerVersion))
         | _ \<Rightarrow> Inl (SchemaDiscoveryError (''Unsupported Swagger version: '' @ to_String swaggerVersion)))
      else if js_in ''openapi'' spec then
        (let openapiVersion = getProp spec ''openapi'' in
         case openapiVersion of
           JStr v \<Rightarrow>
             if startsWith v ''3.0'' then Inr ''openapi_3.0''
             else if startsWith v ''3.1'' then Inr ''openapi_3.1''
             else if startsWith v ''3.2'' then Inr ''openapi_3.2''
             else Inl (SchemaDiscoveryError (''Unsupported OpenAPI version: '' @ to_String openapiVersion))
         | _ \<Rightarrow> Inl (SchemaDiscoveryError (''Unsupported OpenAPI version: '' @ to_String openapiVersion)))
      else Inl (SchemaDiscoveryError
                  (''Unable to detect spec version: missing '' @ [CHR 0x22] @ ''swagger'' @ [CHR 0x22] @
                   '' or '' @ [CHR 0x22] @ ''openapi'' @ [CHR 0x22] @ '' field'')))"


section \<open>Parameters, request bodies and responses\<close>

record OCPTool =
  tool_name :: string
  tool_description :: json
  tool_method :: string
  tool_path :: string
  tool_parameters :: "(string \<times> json) list"
  response_schema :: json
  operation_id :: json
  tool_tags :: json


fun includes_string :: "string \<Rightarrow> string \<Rightarrow> bool" where
  "includes_string [] name = (name = [])"
| "includes_string (c # cs) name = (startsWith (c # cs) name \<or> includes_string cs name)"

definition js_includes :: "json \<Rightarrow> string \<Rightarrow> error + bool" where
  "js_includes required name =
     (case required of
        JArr xs \<Rightarrow> Inr (JStr name \<in> set xs)
      | JStr s \<Rightarrow> Inr (includes_string s name)
      | _ \<Rightarrow> Inl TypeError)"

definition assign :: "(string \<times> json) list \<Rightarrow> (string \<times> json) list \<Rightarrow> (string \<times> json) list" where
  "assign target source = foldl (\<lambda>acc (k, v). AList.update k v acc) target (own_entries source)"

definition parameterSchema :: "json \<Rightarrow> json \<Rightarrow> memo \<Rightarrow> (error + json) \<times> memo" where
  "parameterSchema param specData memoCache =
     (let paramSchema =
            [(''description'', js_or (getProp param ''description'') (JStr [])),
             (''required'', js_or (getProp param ''required'') (JBool False)),
             (''location'', js_or (getProp param ''in'') (JStr ''query'')),
             (''type'', JStr ''string'')];
          schema = js_or (getProp param ''schema'') (JObj [])
      in case resolveRefs schema specData [] memoCache False of
           (Inl e, memo1) \<Rightarrow> (Inl e, memo1)
         | (Inr resolvedSchema, memo1) \<Rightarrow>
             (if resolvedSchema = JUndefined \<or> resolvedSchema = JNull then (Inl TypeError, memo1)
              else
                (let paramSchema1 =
                       AList.update ''type'' (js_or (getProp resolvedSchema ''type'') (JStr ''string''))
                         paramSchema
                 in case js_in_checked ''enum'' resolvedSchema of
                      Inl e \<Rightarrow> (Inl e, memo1)
                    | Inr hasEnum \<Rightarrow>
                        (let paramSchema2 =
                               (if hasEnum
                                then AList.update ''enum'' (getProp resolvedSchema ''enum'') paramSchema1
                                else paramSchema1)
                         in case js_in_checked ''format'' resolvedSchema of
                              Inl e \<Rightarrow> (Inl e, memo1)
                            | Inr hasFormat \<Rightarrow>
                                (Inr (JObj (if hasFormat
                                            then AList.update ''format'' (getProp resolvedSchema ''format'')
                                                   paramSchema2
                                            else paramSchema2)),
                                 memo1)))))"

fun parametersLoop :: "json list \<Rightarrow> (string \<times> json) list \<Rightarrow> json \<Rightarrow> memo \<Rightarrow>
    (error + (string \<times> json) list) \<times> memo" where
  "parametersLoop [] result specData memoCache = (Inr result, memoCache)"
| "parametersLoop (param # params) result specData memoCache =
     (if \<not> truthy param \<or> \<not> is_object param then parametersLoop params result specData memoCache
      else if \<not> truthy (getProp param ''name'') then parametersLoop params result specData memoCache
      else
        (case parameterSchema param specData memoCache of
           (Inl e, memo1) \<Rightarrow> (Inl e, memo1)
         | (Inr paramSchema, memo1) \<Rightarrow>
             (case setProp (to_String (getProp param ''name'')) paramSchema result of
                Inl e \<Rightarrow> (Inl e, memo1)
              | Inr result' \<Rightarrow> parametersLoop params result' specData memo1)))"

definition parseParameters :: "json \<Rightarrow> json \<Rightarrow> memo \<Rightarrow> (error + (string \<times> json) list) \<times> memo" where
  "parseParameters parameters specData memoCache =
     (case iterate parameters of
        Inl e \<Rightarrow> (Inl e, memoCache)
      | Inr params \<Rightarrow> parametersLoop params [] specData memoCache)"

definition propertyEntry :: "json \<Rightarrow> bool \<Rightarrow> json" where
  "propertyEntry propSchema isRequired =
     (let entry =
            [(''description'', js_or (getProp propSchema ''description'') (JStr [])),
             (''required'', JBool isRequired),
             (''location'', JStr ''body''),
             (''type'', js_or (getProp propSchema ''type'') (JStr ''string''))]
      in JObj (if js_in ''enum'' propSchema
               then AList.update ''enum'' (getProp propSchema ''enum'') entry
               else entry))"

fun propertiesLoop :: "(string \<times> json) list \<Rightarrow> json \<Rightarrow> (string \<times> json) list \<Rightarrow>
    error + (string \<times> json) list" where
  "propertiesLoop [] required result = Inr result"
| "propertiesLoop ((name, propSchema) # rest) required result =
     (if \<not> is_object propSchema then propertiesLoop rest required result
      else
        (case js_includes required name of
           Inl e \<Rightarrow> Inl e
         | Inr isRequired \<Rightarrow>
             (case setProp name (propertyEntry propSchema isRequired) result of
                Inl e \<Rightarrow> Inl e
              | Inr result' \<Rightarrow> propertiesLoop rest required result')))"

definition objectSchemaParameters :: "json \<Rightarrow> error + (string \<times> json) list" where
  "objectSchemaParameters schema =
     (if schema = JUndefined \<or> schema = JNull then Inl TypeError
      else if getProp schema ''type'' = JStr ''object'' then
        (let properties = js_or (getProp schema ''properties'') (JObj []);
             required = js_or (getProp schema ''required'') (JArr [])
         in propertiesLoop (entries properties) required [])
      else Inr [])"

definition parseOpenApi3RequestBody :: "json \<Rightarrow> json \<Rightarrow> memo \<Rightarrow> (error + (string \<times> json) list) \<times> memo" where
  "parseOpenApi3RequestBody requestBody specData memoCache =
     (if \<not> truthy requestBody \<or> \<not> is_object requestBody then (Inr [], memoCache)
      else
        (let content = js_or (getProp requestBody ''content'') (JObj []);
             jsonContent = getProp content ''application/json''
         in if \<not> truthy jsonContent \<or> \<not> truthy (getProp jsonContent ''schema'')
            then (Inr [], memoCache)
            else
              (case resolveRefs (getProp jsonContent ''schema'') specData [] memoCache False of
                 (Inl e, memo1) \<Rightarrow> (Inl e, memo1)
               | (Inr schema, memo1) \<Rightarrow> (objectSchemaParameters schema, memo1))))"

definition parseSwagger2BodyParameter :: "json \<Rightarrow> json \<Rightarrow> memo \<Rightarrow> (error + (string \<times> json) list) \<times> memo" where
  "parseSwagger2BodyParameter param specData memoCache =
     (if \<not> truthy param \<or> \<not> is_object param \<or> getProp param ''in'' \<noteq> JStr ''body'' \<or>
         \<not> truthy (getProp param ''schema'')
      then (Inr [], memoCache)
      else
        (case resolveRefs (getProp param ''schema'') specData [] memoCache False of
           (Inl e, memo1) \<Rightarrow> (Inl e, memo1)
         | (Inr schema, memo1) \<Rightarrow> (objectSchemaParameters schema, memo1)))"

fun parseResponses :: "string \<Rightarrow> (string \<times> json) list \<Rightarrow> json \<Rightarrow> memo \<Rightarrow> (error + json) \<times> memo" where
  "parseResponses specVersion [] specData memoCache = (Inr JUndefined, memoCache)"
| "parseResponses specVersion ((statusCode, response) # rest) specData memoCache =
     (if startsWith statusCode ''2'' \<and> is_object response then
        (if specVersion = ''swagger_2'' then
           (if truthy (getProp response ''schema'')
            then resolveRefs (getProp response ''schema'') specData [] memoCache False
            else parseResponses specVersion rest specData memoCache)
         else
           (let content = js_or (getProp response ''content'') (JObj []);
                jsonContent = getProp content ''application/json''
            in if truthy jsonContent \<and> truthy (getProp jsonContent ''schema'')
               then resolveRefs (getProp jsonContent ''schema'') specData [] memoCache False
               else parseResponses specVersion rest specData memoCache))
      else parseResponses specVersion rest specData memoCache)"


section \<open>Operations, the whole parse and the resource filter\<close>



definition SUPPORTED_HTTP_METHODS :: "string list" where
  "SUPPORTED_HTTP_METHODS = [''get'', ''post'', ''put'', ''patch'', ''delete'']"

fun swagger2BodyLoop :: "json list \<Rightarrow> (string \<times> json) list \<Rightarrow> json \<Rightarrow> memo \<Rightarrow>
    (error + (string \<times> json) list) \<times> memo" where
  "swagger2BodyLoop [] parameters specData memoCache = (Inr parameters, memoCache)"
| "swagger2BodyLoop (param # rest) parameters specData memoCache =
     (case parseSwagger2BodyParameter param specData memoCache of
        (Inl e, memo1) \<Rightarrow> (Inl e, memo1)
      | (Inr bodyParams, memo1) \<Rightarrow>
          swagger2BodyLoop rest (assign parameters bodyParams) specData memo1)"

definition requestBodyParameters :: "string \<Rightarrow> string \<Rightarrow> json \<Rightarrow> (string \<times> json) list \<Rightarrow> json \<Rightarrow> memo \<Rightarrow>
    (error + (string \<times> json) list) \<times> memo" where
  "requestBodyParameters specVersion method operation parameters specData memoCache =
     (if toUpperCase method \<in> set [''POST'', ''PUT'', ''PATCH''] then
        (if specVersion = ''swagger_2'' then
           (case iterate (js_or (getProp operation ''parameters'') (JArr [])) of
              Inl e \<Rightarrow> (Inl e, memoCache)
            | Inr params \<Rightarrow> swagger2BodyLoop params parameters specData memoCache)
         else if truthy (getProp operation ''requestBody'') then
           (case parseOpenApi3RequestBody (getProp operation ''requestBody'') specData memoCache of
              (Inl e, memo1) \<Rightarrow> (Inl e, memo1)
            | (Inr bodyParams, memo1) \<Rightarrow> (Inr (assign parameters bodyParams), memo1))
         else (Inr parameters, memoCache))
      else (Inr parameters, memoCache))"

definition assembleTool :: "string \<Rightarrow> string \<Rightarrow> string \<Rightarrow> string \<Rightarrow> json \<Rightarrow> json \<Rightarrow> memo \<Rightarrow>
    (error + OCPTool option) \<times> memo" where
  "assembleTool specVersion toolName path method operation specData memoCache =
     (let description =
            js_or (js_or (getProp operation ''summary'') (getProp operation ''description''))
              (JStr ''No description provided'');
          tags = js_or (getProp operation ''tags'') (JArr [])
      in case parseParameters (js_or (getProp operation ''parameters'') (JArr [])) specData memoCache of
           (Inl e, memo1) \<Rightarrow> (Inl e, memo1)
         | (Inr parameters, memo1) \<Rightarrow>
             (case requestBodyParameters specVersion method operation parameters specData memo1 of
                (Inl e, memo2) \<Rightarrow> (Inl e, memo2)
              | (Inr parameters', memo2) \<Rightarrow>
                  (case parseResponses specVersion
                          (entries (js_or (getProp operation ''responses'') (JObj []))) specData memo2 of
                     (Inl e, memo3) \<Rightarrow> (Inl e, memo3)
                   | (Inr responseSchema, memo3) \<Rightarrow>
                       (Inr (Some \<lparr>tool_name = toolName,
                                   tool_description = description,
                                   tool_method = toUpperCase method,
                                   tool_path = path,
                                   tool_parameters = parameters',
                                   response_schema = responseSchema,
                                   operation_id = getProp operation ''operationId'',
                                   tool_tags = tags\<rparr>),
                        memo3))))"

definition createToolFromOperation :: "string \<Rightarrow> string \<Rightarrow> string \<Rightarrow> json \<Rightarrow> json \<Rightarrow> memo \<Rightarrow>
    (error + OCPTool option) \<times> memo" where
  "createToolFromOperation specVersion path method operation specData memoCache =
     (if \<not> truthy operation \<or> \<not> is_object operation then (Inr None, memoCache)
      else
        (let operationId = getProp operation ''operationId'' in
         if truthy operationId \<and> (case operationId of JStr s \<Rightarrow> False | _ \<Rightarrow> True)
         then (Inl TypeError, memoCache)
         else
           (let toolName =
                  (case operationId of
                     JStr s \<Rightarrow>
                       if truthy operationId \<and> isValidToolName (normalizeToolName s)
                       then JStr (normalizeToolName s) else JNull
                   | _ \<Rightarrow> JNull);
                toolName' =
                  (if \<not> truthy toolName then
                     (let cleanPath =
                            filter (\<lambda>c. c \<notin> set ''{}'')
                              (map (\<lambda>c. if c = CHR ''/'' then CHR ''_'' else c) path);
                          fallbackName = toLowerCase method @ cleanPath;
                          normalizedFallback = normalizeToolName fallbackName
                      in if isValidToolName normalizedFallback then JStr normalizedFallback else toolName)
                   else toolName)
            in if \<not> truthy toolName' then (Inr None, memoCache)
               else assembleTool specVersion (to_String toolName') path method operation specData
                      memoCache)))"

fun operationsLoop :: "string \<Rightarrow> string \<Rightarrow> (string \<times> json) list \<Rightarrow> json \<Rightarrow> OCPTool list \<Rightarrow> memo \<Rightarrow>
    (error + OCPTool list) \<times> memo" where
  "operationsLoop specVersion path [] spec tools memoCache = (Inr tools, memoCache)"
| "operationsLoop specVersion path ((method, operation) # rest) spec tools memoCache =
     (if toLowerCase method \<notin> set SUPPORTED_HTTP_METHODS
      then operationsLoop specVersion path rest spec tools memoCache
      else
        (case createToolFromOperation specVersion path method operation spec memoCache of
           (Inl e, memo1) \<Rightarrow> (Inl e, memo1)
         | (Inr None, memo1) \<Rightarrow> operationsLoop specVersion path rest spec tools memo1
         | (Inr (Some tool), memo1) \<Rightarrow>
             operationsLoop specVersion path rest spec (tools @ [tool]) memo1))"



definition filterToolsByResources :: "OCPTool list \<Rightarrow> string list option \<Rightarrow> string option \<Rightarrow> OCPTool list" where
  "filterToolsByResources tools includeResources pathPrefix =
     (case includeResources of
        None \<Rightarrow> tools
      | Some resources \<Rightarrow>
          if length resources = 0 then tools
          else
            (let normalizedResources = map toLowerCase resources in
             filter
               (\<lambda>tool.
                  let path = tool_path tool;
                      path' =
                        (case pathPrefix of
                           None \<Rightarrow> path
                         | Some prefixText \<Rightarrow>
                             if prefixText \<noteq> [] \<and>
                                startsWith (toLowerCase path) (toLowerCase prefixText)
                             then drop (length prefixText) path
                             else path);
                      pathLower = toLowerCase path';
                      pathNormalized = map (\<lambda>c. if c = CHR ''.'' then CHR ''/'' else c) pathLower;
                      segments =
                        filter (\<lambda>seg. seg \<noteq> [] \<and> \<not> startsWith seg ''{'')
                          (split CHR ''/'' pathNormalized)
                  in length segments > 0 \<and> hd segments \<in> set normalizedResources)
               tools))"


section \<open>Version detection follows the documented rule\<close>

text \<open>
  The rule in the specification's words. The program raises one error class,
  \<^verbatim>\<open>SchemaDiscoveryError\<close>, and tells the two failures apart by the message;
  \<open>failure_kind\<close> reads the kind off the message.
\<close>

datatype version_failure = UnsupportedVersion | MissingVersionField

definition failure_kind :: "error \<Rightarrow> version_failure option" where
  "failure_kind e =
     (case e of
        SchemaDiscoveryError msg \<Rightarrow>
          if startsWith msg ''Unsupported Swagger version: '' then Some UnsupportedVersion
          else if startsWith msg ''Unsupported OpenAPI version: '' then Some UnsupportedVersion
          else if startsWith msg ''Unable to detect spec version: missing '' then Some MissingVersionField
          else None
      | _ \<Rightarrow> None)"


lemma startsWith_prefix: "startsWith s p = prefix p s"
proof
  assume "startsWith s p"
  then have "s = p @ drop (length p) s"
    by (metis append_take_drop_id startsWith_def)
  then show "prefix p s"
    by (metis prefixI)
next
  assume "prefix p s"
  then show "startsWith s p"
    by (auto simp: startsWith_def prefix_def)
qed

lemma startsWith_append [simp]: "startsWith (p @ s) p"
  by (simp add: startsWith_def)


lemma detectSpecVersion_examples:
  "detectSpecVersion (JObj [(''swagger'', JStr ''2.0'')]) = Inr ''swagger_2''"
  "detectSpecVersion (JObj [(''openapi'', JStr ''3.1.2'')]) = Inr ''openapi_3.1''"
  "map_sum failure_kind id (detectSpecVersion (JObj [(''openapi'', JStr ''4.0.0'')])) =
     Inl (Some UnsupportedVersion)"
  "map_sum failure_kind id (detectSpecVersion (JObj [])) = Inl (Some MissingVersionField)"
  by (simp_all add: detectSpecVersion_def is_object_def js_in_def has_key_def getProp_def
      failure_kind_def startsWith_def)

section \<open>The resource filter keeps a tool by its first path segment\<close>

text \<open>
  The filter in the specification's words: the path prefix is stripped on a
  case-insensitive prefix match, dots become slashes, the path is split on the slash,
  empty segments and placeholders are dropped, and the first segment left must equal a
  resource name when case is ignored.
\<close>

definition equal_ignoring_case :: "string \<Rightarrow> string \<Rightarrow> bool" where
  "equal_ignoring_case a b = (toLowerCase a = toLowerCase b)"

definition strip_path_prefix :: "string option \<Rightarrow> string \<Rightarrow> string" where
  "strip_path_prefix pathPrefix path =
     (case pathPrefix of
        None \<Rightarrow> path
      | Some p \<Rightarrow> if prefix (toLowerCase p) (toLowerCase path) then drop (length p) path else path)"

definition dots_to_slashes :: "string \<Rightarrow> string" where
  "dots_to_slashes s = map (\<lambda>c. if c = CHR ''.'' then CHR ''/'' else c) s"

definition resource_segments :: "string \<Rightarrow> string list" where
  "resource_segments path =
     filter (\<lambda>seg. seg \<noteq> [] \<and> \<not> prefix ''{'' seg) (split CHR ''/'' (dots_to_slashes path))"

definition keeps_tool :: "string list \<Rightarrow> string option \<Rightarrow> OCPTool \<Rightarrow> bool" where
  "keeps_tool resources pathPrefix tool =
     (case resource_segments (strip_path_prefix pathPrefix (tool_path tool)) of
        [] \<Rightarrow> False
      | seg # _ \<Rightarrow> list_ex (equal_ignoring_case seg) resources)"

lemma lower_char_special:
  "lower_char c = CHR ''/'' \<longleftrightarrow> c = CHR ''/''"
  "lower_char c = CHR ''.'' \<longleftrightarrow> c = CHR ''.''"
  "lower_char c = CHR ''{'' \<longleftrightarrow> c = CHR ''{''"
  by (auto simp: lower_char_def split: option.splits if_splits)

lemma lower_char_slash [simp]: "lower_char CHR ''/'' = CHR ''/''"
  by (simp add: lower_char_def)

lemma toLowerCase_drop: "toLowerCase (drop n s) = drop n (toLowerCase s)"
  by (simp add: toLowerCase_def drop_map)

lemma toLowerCase_dots: "dots_to_slashes (toLowerCase s) = toLowerCase (dots_to_slashes s)"
  by (induction s) (auto simp: toLowerCase_def dots_to_slashes_def lower_char_special)

lemma split_not_Nil: "split sep s \<noteq> []"
  by (induction s) (auto split: list.splits)

lemma split_toLowerCase:
  "split CHR ''/'' (toLowerCase s) = map toLowerCase (split CHR ''/'' s)"
proof (induction s)
  case Nil
  show ?case by (simp add: toLowerCase_def)
next
  case (Cons c cs)
  show ?case
  proof (cases "c = CHR ''/''")
    case True
    with Cons show ?thesis by (simp add: toLowerCase_def lower_char_special)
  next
    case False
    obtain w ws where w: "split CHR ''/'' cs = w # ws"
      using split_not_Nil [of "CHR ''/''" cs] by (cases "split CHR ''/'' cs") auto
    with False Cons show ?thesis by (simp add: toLowerCase_def lower_char_special)
  qed
qed

lemma segment_kept_toLowerCase:
  "(toLowerCase seg \<noteq> [] \<and> \<not> startsWith (toLowerCase seg) ''{'') \<longleftrightarrow>
   (seg \<noteq> [] \<and> \<not> prefix ''{'' seg)"
  by (cases seg) (auto simp: toLowerCase_def startsWith_def lower_char_special)

lemma segments_toLowerCase:
  "filter (\<lambda>seg. seg \<noteq> [] \<and> \<not> startsWith seg ''{'')
     (split CHR ''/'' (dots_to_slashes (toLowerCase path))) =
   map toLowerCase (resource_segments path)"
  by (simp add: resource_segments_def toLowerCase_dots split_toLowerCase filter_map o_def
      segment_kept_toLowerCase)

lemma code_strip_is_strip_path_prefix:
  "(case pathPrefix of
      None \<Rightarrow> path
    | Some prefixText \<Rightarrow>
        if prefixText \<noteq> [] \<and> startsWith (toLowerCase path) (toLowerCase prefixText)
        then drop (length prefixText) path
        else path) = strip_path_prefix pathPrefix path"
  by (cases pathPrefix) (auto simp: strip_path_prefix_def startsWith_prefix)

lemma code_keeps_is_keeps_tool:
  "(let path = tool_path tool;
        path' =
          (case pathPrefix of
             None \<Rightarrow> path
           | Some prefixText \<Rightarrow>
               if prefixText \<noteq> [] \<and> startsWith (toLowerCase path) (toLowerCase prefixText)
               then drop (length prefixText) path
               else path);
        pathLower = toLowerCase path';
        pathNormalized = map (\<lambda>c. if c = CHR ''.'' then CHR ''/'' else c) pathLower;
        segments =
          filter (\<lambda>seg. seg \<noteq> [] \<and> \<not> startsWith seg ''{'') (split CHR ''/'' pathNormalized)
    in length segments > 0 \<and> hd segments \<in> set (map toLowerCase resources)) =
   keeps_tool resources pathPrefix tool"
proof -
  let ?segs = "resource_segments (strip_path_prefix pathPrefix (tool_path tool))"
  have "(0 < length (map toLowerCase ?segs) \<and>
         hd (map toLowerCase ?segs) \<in> set (map toLowerCase resources)) =
        keeps_tool resources pathPrefix tool"
    by (cases ?segs)
       (auto simp: keeps_tool_def list_ex_iff equal_ignoring_case_def)
  then show ?thesis
    unfolding Let_def code_strip_is_strip_path_prefix
    using segments_toLowerCase [of "strip_path_prefix pathPrefix (tool_path tool)"]
    by (simp add: dots_to_slashes_def)
qed

text \<open>
  C8. With no resource list or an empty one the filter returns its input unchanged.
  Otherwise a tool is kept if and only if, after the path prefix is stripped
  (case-insensitive prefix match), dots are turned into slashes, the path is split on the
  slash and the empty segments and the segments starting with an opening brace are
  dropped, the first segment left equals one of the resource names when case is ignored.
  Equality of the whole segment is required, so a resource name that is only a substring
  of the segment does not match.
\<close>

theorem filterToolsByResources_first_segment:
  "filterToolsByResources tools None pathPrefix = tools \<and>
   filterToolsByResources tools (Some []) pathPrefix = tools \<and>
   (resources \<noteq> [] \<longrightarrow>
      filterToolsByResources tools (Some resources) pathPrefix =
      filter (keeps_tool resources pathPrefix) tools)"
proof (intro conjI impI)
  show "filterToolsByResources tools None pathPrefix = tools"
    by (simp add: filterToolsByResources_def)
  show "filterToolsByResources tools (Some []) pathPrefix = tools"
    by (simp add: filterToolsByResources_def)
next
  assume "resources \<noteq> []"
  then show "filterToolsByResources tools (Some resources) pathPrefix =
      filter (keeps_tool resources pathPrefix) tools"
    unfolding filterToolsByResources_def
    by (simp only: option.case length_0_conv if_False Let_def [of "map toLowerCase resources"]
          code_keeps_is_keeps_tool)
qed

definition tool_at :: "string \<Rightarrow> OCPTool" where
  "tool_at path =
     \<lparr>tool_name = ''tool'', tool_description = JStr ''A tool'', tool_method = ''GET'',
      tool_path = path, tool_parameters = [], response_schema = JUndefined,
      operation_id = JUndefined, tool_tags = JArr []\<rparr>"

lemma keeps_tool_examples:
  "keeps_tool [''repos''] None (tool_at ''/repos/{owner}/{repo}'')"
  "keeps_tool [''repos''] None (tool_at ''/repos/{owner}/{repo}/issues'')"
  "\<not> keeps_tool [''repos''] None (tool_at ''/user/repos'')"
  "\<not> keeps_tool [''payment''] None (tool_at ''/payments'')"
  "keeps_tool [''Payments''] (Some ''/V1'') (tool_at ''/v1/payments'')"
  "\<not> keeps_tool [''payments''] (Some ''/v1'') (tool_at ''/v2/payments'')"
  by (simp_all add: keeps_tool_def tool_at_def resource_segments_def strip_path_prefix_def
      dots_to_slashes_def equal_ignoring_case_def toLowerCase_def lower_char_def)

theorem filterToolsByResources_first_segment_witness:
  "[''repos''] \<noteq> [] \<and>
   filterToolsByResources
     [tool_at ''/repos/{owner}/{repo}'', tool_at ''/repos/{owner}/{repo}/issues'',
      tool_at ''/user/repos'']
     (Some [''repos'']) None =
   [tool_at ''/repos/{owner}/{repo}'', tool_at ''/repos/{owner}/{repo}/issues'']"
  using filterToolsByResources_first_segment
    [of "[tool_at ''/repos/{owner}/{repo}'', tool_at ''/repos/{owner}/{repo}/issues'',
          tool_at ''/user/repos'']" None "[''repos'']"]
  by (simp add: keeps_tool_examples)

section \<open>Resolving a pure reference node\<close>

definition refNode :: "string \<Rightarrow> json" where
  "refNode refPath = JObj [(''$ref'', JStr refPath)]"

text \<open>
  The memo and the stack of a parse hold only pointers that were found in the root: a
  pointer is pushed, and its result stored, only after its lookup succeeded.
\<close>

definition pointer_exists :: "json \<Rightarrow> string \<Rightarrow> bool" where
  "pointer_exists root q = (case lookupRef root q of Inl e \<Rightarrow> False | Inr target \<Rightarrow> target \<noteq> JNull)"

definition pointers_exist :: "json \<Rightarrow> memo \<Rightarrow> string list \<Rightarrow> bool" where
  "pointers_exist root memo resolutionStack =
     list_all (pointer_exists root) (map fst memo @ resolutionStack)"

text \<open>
  The enumeration order of the entries: a permutation of the entries, and the entries
  themselves when no key is an array index.
\<close>

lemma digit_val_None:
  assumes "c \<notin> set ''0123456789''"
  shows "digit_val c = None"
proof -
  have "map fst (zip ''0123456789'' [0 ..< 10]) = ''0123456789''"
    by (rule map_fst_zip) simp
  then have "fst ` set (zip ''0123456789'' [0 ..< 10]) = set ''0123456789''"
    by (metis set_map)
  with assms show ?thesis
    unfolding digit_val_def map_of_eq_None_iff by blast
qed

lemma digit_val_digits:
  "digit_val CHR ''0'' = Some 0" "digit_val CHR ''1'' = Some 1" "digit_val CHR ''2'' = Some 2"
  "digit_val CHR ''3'' = Some 3" "digit_val CHR ''4'' = Some 4" "digit_val CHR ''5'' = Some 5"
  "digit_val CHR ''6'' = Some 6" "digit_val CHR ''7'' = Some 7" "digit_val CHR ''8'' = Some 8"
  "digit_val CHR ''9'' = Some 9"
  by (simp_all add: digit_val_def upt_rec)

lemma own_entries_single [simp]: "own_entries [kv] = [kv]"
  by (simp add: own_entries_def)

lemma property_index_not_numeral:
  "property_index [] = None"
  "c \<notin> set ''0123456789'' \<Longrightarrow> property_index (c # cs) = None"
  by (simp_all add: property_index_def array_index_def digit_val_None)

lemma own_entries_no_index:
  "list_all (\<lambda>kv. property_index (fst kv) = None) kvs \<Longrightarrow> own_entries kvs = kvs"
  by (simp add: own_entries_def index_key_def list_all_iff)

lemma own_entries_Nil [simp]: "own_entries [] = []"
  by (simp add: own_entries_def)

lemma distinct_own_entries:
  "distinct (map fst (own_entries kvs)) \<longleftrightarrow> distinct (map fst kvs)"
proof -
  have "distinct (map fst (sort_key index_value (filter index_key kvs) @
          filter (\<lambda>kv. \<not> index_key kv) kvs)) \<longleftrightarrow>
        distinct (map fst (filter index_key kvs @ filter (\<lambda>kv. \<not> index_key kv) kvs))"
    by (auto simp: distinct_map)
  also have "\<dots> \<longleftrightarrow> distinct (map fst kvs)"
    by (induction kvs) (auto simp: index_key_def)
  finally show ?thesis
    by (simp add: own_entries_def)
qed

lemma map_of_own_entries:
  assumes "distinct (map fst kvs)"
  shows "map_of (own_entries kvs) = map_of kvs"
  using assms by (intro map_of_inject_set [THEN iffD2]) (simp_all add: distinct_own_entries set_own_entries)

lemma fst_own_entries: "fst ` set (own_entries kvs) = fst ` set kvs"
  by (simp add: set_own_entries)

lemmas entries_plain_keys = entries_def own_entries_no_index property_index_not_numeral

lemma resolveRefs_primitive:
  "\<not> is_object obj \<Longrightarrow> resolveRefs obj root st memo b = (Inr obj, memo)"
  by (cases obj) (simp_all add: resolveRefs.simps is_object_def)

lemma resolveRefs_refNode:
  assumes "root \<noteq> JUndefined"
  shows "resolveRefs (refNode p) root st memo b =
     (if \<not> startsWith p ''#/'' then (Inr (refNode p), memo)
      else
        (case (if b then keptUnexpanded root p else Inr False) of
           Inl e \<Rightarrow> (Inl e, memo)
         | Inr kept \<Rightarrow>
             if kept then (Inr (refNode p), memo)
             else if has_key p memo then (Inr (getProp (JObj memo) p), memo)
             else if p \<in> set st then
               (Inr circularPlaceholder, AList.update p circularPlaceholder memo)
             else
               (case lookupRef root p of
                  Inl e \<Rightarrow> (Inl e, memo)
                | Inr resolved \<Rightarrow>
                    if resolved \<noteq> JNull then
                      (case resolveRefs resolved root (st @ [p]) memo b of
                         (Inr resolvedObj, memo1) \<Rightarrow>
                           (Inr resolvedObj, AList.update p resolvedObj memo1)
                       | (Inl e, memo1) \<Rightarrow>
                           if e = Unmodelled then (Inl e, memo1)
                           else (Inr unresolvedPlaceholder,
                                 AList.update p unresolvedPlaceholder memo1))
                    else (Inr (refNode p), memo))))"
  using assms
  by (subst resolveRefs.simps)
     (simp add: refNode_def polymorphicKeyword_def has_key_def getProp_def Let_def)

text \<open>
  The outcome of the test under a polymorphic keyword, for the flag in force:
  \<open>Inr False\<close> outside a polymorphic keyword, where the test is not made.
\<close>

definition keepTest :: "bool \<Rightarrow> json \<Rightarrow> string \<Rightarrow> error + bool" where
  "keepTest b root p = (if b then keptUnexpanded root p else Inr False)"

lemma keepTest_outside [simp]: "keepTest False root p = Inr False"
  by (simp add: keepTest_def)


lemma resolveRefs_refNode_external:
  "root \<noteq> JUndefined \<Longrightarrow> \<not> startsWith p ''#/'' \<Longrightarrow>
   resolveRefs (refNode p) root st memo b = (Inr (refNode p), memo)"
  by (simp add: resolveRefs_refNode)

lemma resolveRefs_refNode_unmodelled_test:
  "root \<noteq> JUndefined \<Longrightarrow> startsWith p ''#/'' \<Longrightarrow> keepTest b root p = Inl e \<Longrightarrow>
   resolveRefs (refNode p) root st memo b = (Inl e, memo)"
  by (simp add: resolveRefs_refNode keepTest_def)

lemma resolveRefs_refNode_kept:
  "root \<noteq> JUndefined \<Longrightarrow> startsWith p ''#/'' \<Longrightarrow> keepTest b root p = Inr True \<Longrightarrow>
   resolveRefs (refNode p) root st memo b = (Inr (refNode p), memo)"
  by (simp add: resolveRefs_refNode keepTest_def)

lemma resolveRefs_refNode_memo:
  "root \<noteq> JUndefined \<Longrightarrow> startsWith p ''#/'' \<Longrightarrow> keepTest b root p = Inr False \<Longrightarrow>
   has_key p memo \<Longrightarrow>
   resolveRefs (refNode p) root st memo b = (Inr (getProp (JObj memo) p), memo)"
  by (simp add: resolveRefs_refNode keepTest_def)

lemma resolveRefs_refNode_cycle:
  "root \<noteq> JUndefined \<Longrightarrow> startsWith p ''#/'' \<Longrightarrow> keepTest b root p = Inr False \<Longrightarrow>
   \<not> has_key p memo \<Longrightarrow> p \<in> set st \<Longrightarrow>
   resolveRefs (refNode p) root st memo b =
     (Inr circularPlaceholder, AList.update p circularPlaceholder memo)"
  by (simp add: resolveRefs_refNode keepTest_def)

lemma resolveRefs_refNode_unmodelled_lookup:
  "root \<noteq> JUndefined \<Longrightarrow> startsWith p ''#/'' \<Longrightarrow> keepTest b root p = Inr False \<Longrightarrow>
   \<not> has_key p memo \<Longrightarrow> p \<notin> set st \<Longrightarrow> lookupRef root p = Inl e \<Longrightarrow>
   resolveRefs (refNode p) root st memo b = (Inl e, memo)"
  by (simp add: resolveRefs_refNode keepTest_def)

lemma resolveRefs_refNode_follow:
  "root \<noteq> JUndefined \<Longrightarrow> startsWith p ''#/'' \<Longrightarrow> keepTest b root p = Inr False \<Longrightarrow>
   \<not> has_key p memo \<Longrightarrow> p \<notin> set st \<Longrightarrow> lookupRef root p = Inr target \<Longrightarrow> target \<noteq> JNull \<Longrightarrow>
   resolveRefs (refNode p) root st memo b =
     (case resolveRefs target root (st @ [p]) memo b of
        (Inr resolvedObj, memo1) \<Rightarrow> (Inr resolvedObj, AList.update p resolvedObj memo1)
      | (Inl e, memo1) \<Rightarrow>
          if e = Unmodelled then (Inl e, memo1)
          else (Inr unresolvedPlaceholder, AList.update p unresolvedPlaceholder memo1))"
  by (simp add: resolveRefs_refNode keepTest_def)

lemma resolveRefs_refNode_missing:
  "root \<noteq> JUndefined \<Longrightarrow> \<not> has_key p memo \<Longrightarrow> p \<notin> set st \<Longrightarrow> lookupRef root p = Inr JNull \<Longrightarrow>
   resolveRefs (refNode p) root st memo b = (Inr (refNode p), memo)"
  by (simp add: resolveRefs_refNode keptUnexpanded_def)

lemma has_key_iff: "has_key k kvs \<longleftrightarrow> k \<in> fst ` set kvs"
  by (simp add: has_key_def map_of_eq_None_iff)

lemma pointers_exist_memo:
  "pointers_exist root memo st \<Longrightarrow> has_key p memo \<Longrightarrow> pointer_exists root p"
  by (auto simp: pointers_exist_def has_key_iff list_all_iff)

lemma pointers_exist_stack:
  "pointers_exist root memo st \<Longrightarrow> p \<in> set st \<Longrightarrow> pointer_exists root p"
  by (auto simp: pointers_exist_def list_all_iff)

lemma missing_pointer_not_exists:
  "lookupRef root p = Inr JNull \<Longrightarrow> \<not> pointer_exists root p"
  by (simp add: pointer_exists_def)

lemma found_pointer_exists:
  "lookupRef root p = Inr target \<Longrightarrow> target \<noteq> JNull \<Longrightarrow> pointer_exists root p"
  by (simp add: pointer_exists_def)

lemma ref_cases
  [case_names external untestable kept memo cycle unreadable missing follow]:
  obtains "\<not> startsWith p ''#/''"
  | e where "startsWith p ''#/''" "keepTest b root p = Inl e"
  | "startsWith p ''#/''" "keepTest b root p = Inr True"
  | "startsWith p ''#/''" "keepTest b root p = Inr False" "has_key p memo"
  | "startsWith p ''#/''" "keepTest b root p = Inr False" "\<not> has_key p memo" "p \<in> set st"
  | e where "startsWith p ''#/''" "keepTest b root p = Inr False" "\<not> has_key p memo"
      "p \<notin> set st" "lookupRef root p = Inl e"
  | "\<not> has_key p memo" "p \<notin> set st" "lookupRef root p = Inr JNull"
  | target where "startsWith p ''#/''" "keepTest b root p = Inr False" "\<not> has_key p memo"
      "p \<notin> set st" "lookupRef root p = Inr target" "target \<noteq> JNull"
proof (cases "startsWith p ''#/''")
  case False
  then show ?thesis by (rule that(1))
next
  case internal: True
  show ?thesis
  proof (cases "keepTest b root p")
    case (Inl e)
    with internal show ?thesis by (rule that(2))
  next
    case (Inr kept)
    show ?thesis
    proof (cases kept)
      case True
      with internal Inr show ?thesis by (intro that(3)) simp_all
    next
      case False
      with Inr have test: "keepTest b root p = Inr False" by simp
      show ?thesis
      proof (cases "has_key p memo")
        case True
        with internal test show ?thesis by (rule that(4))
      next
        case fresh: False
        show ?thesis
        proof (cases "p \<in> set st")
          case True
          with internal test fresh show ?thesis by (rule that(5))
        next
          case off: False
          show ?thesis
          proof (cases "lookupRef root p")
            case (Inl e)
            with internal test fresh off show ?thesis by (rule that(6))
          next
            case (Inr target)
            show ?thesis
            proof (cases "target = JNull")
              case True
              with fresh off Inr show ?thesis by (intro that(7)) simp_all
            next
              case False
              with internal test fresh off Inr show ?thesis by (rule that(8))
            qed
          qed
        qed
      qed
    qed
  qed
qed

subsection \<open>The resolver's equations by the shape of the node\<close>

lemma resolveRefs_JArr:
  "root \<noteq> JUndefined \<Longrightarrow>
   resolveRefs (JArr xs) root st memo b =
     (case resolveItems xs root st memo b of
        (Inl e, memo1) \<Rightarrow> (Inl e, memo1)
      | (Inr ys, memo1) \<Rightarrow> (Inr (JArr ys), memo1))"
  by (subst resolveRefs.simps) simp

lemma resolveRefs_polymorphic:
  "root \<noteq> JUndefined \<Longrightarrow> polymorphicKeyword kvs = Some kw \<Longrightarrow>
   resolveRefs (JObj kvs) root st memo b =
     (case getProp (JObj kvs) kw of
        JArr items \<Rightarrow>
          (case resolveItems items root st memo True of
             (Inl e, memo1) \<Rightarrow> (Inl e, memo1)
           | (Inr items', memo1) \<Rightarrow>
               (case resolveEntries (entries (JObj kvs)) (Some kw) [(kw, JArr items')] root st memo1 b of
                  (Inl e, memo2) \<Rightarrow> (Inl e, memo2)
                | (Inr result, memo2) \<Rightarrow> (Inr (JObj result), memo2)))
      | _ \<Rightarrow> (Inl TypeError, memo))"
  by (subst resolveRefs.simps) simp

lemma resolveRefs_plain:
  "root \<noteq> JUndefined \<Longrightarrow> polymorphicKeyword kvs = None \<Longrightarrow>
   \<not> (has_key ''$ref'' kvs \<and> length kvs = 1) \<Longrightarrow>
   resolveRefs (JObj kvs) root st memo b =
     (case resolveEntries (entries (JObj kvs)) None [] root st memo b of
        (Inl e, memo1) \<Rightarrow> (Inl e, memo1)
      | (Inr result, memo1) \<Rightarrow> (Inr (JObj result), memo1))"
  by (subst resolveRefs.simps) auto

lemma resolveRefs_ref_not_string:
  "root \<noteq> JUndefined \<Longrightarrow> (\<And>p. v \<noteq> JStr p) \<Longrightarrow>
   resolveRefs (JObj [(''$ref'', v)]) root st memo b = (Inl TypeError, memo)"
  by (subst resolveRefs.simps)
     (cases v; auto simp: polymorphicKeyword_def has_key_def getProp_def)

lemma pure_ref_shape:
  assumes "has_key ''$ref'' kvs" and "length kvs = 1"
  shows "\<exists>v. kvs = [(''$ref'', v)]"
proof -
  from assms(2) obtain k v where "kvs = [(k, v)]"
    by (cases kvs) auto
  with assms(1) show ?thesis
    by (auto simp: has_key_def split: if_splits)
qed

text \<open>
  Induction along the calls of the resolver for a fixed root: one case for each shape of
  node, with the hypotheses for the calls that shape makes.
\<close>

lemma resolve_induct
  [consumes 1, case_names Primitive Array Polymorphic Reference Plain NoItems Items NoEntries
     Skipped Entry]:
  assumes root: "root \<noteq> JUndefined"
    and Primitive: "\<And>obj st memo b. \<not> is_object obj \<Longrightarrow> P obj st memo b"
    and Array: "\<And>xs st memo b. Q xs st memo b \<Longrightarrow> P (JArr xs) st memo b"
    and Polymorphic: "\<And>kvs kw st memo b.
        polymorphicKeyword kvs = Some kw \<Longrightarrow>
        (\<And>items. getProp (JObj kvs) kw = JArr items \<Longrightarrow> Q items st memo True) \<Longrightarrow>
        (\<And>items items' memo1. getProp (JObj kvs) kw = JArr items \<Longrightarrow>
            resolveItems items root st memo True = (Inr items', memo1) \<Longrightarrow>
            R (entries (JObj kvs)) (Some kw) [(kw, JArr items')] st memo1 b) \<Longrightarrow>
        P (JObj kvs) st memo b"
    and Reference: "\<And>v st memo b.
        (\<And>p target. v = JStr p \<Longrightarrow> startsWith p ''#/'' \<Longrightarrow> keepTest b root p = Inr False \<Longrightarrow>
            \<not> has_key p memo \<Longrightarrow> p \<notin> set st \<Longrightarrow> lookupRef root p = Inr target \<Longrightarrow>
            target \<noteq> JNull \<Longrightarrow> P target (st @ [p]) memo b) \<Longrightarrow>
        P (JObj [(''$ref'', v)]) st memo b"
    and Plain: "\<And>kvs st memo b.
        polymorphicKeyword kvs = None \<Longrightarrow> \<not> (has_key ''$ref'' kvs \<and> length kvs = 1) \<Longrightarrow>
        R (entries (JObj kvs)) None [] st memo b \<Longrightarrow> P (JObj kvs) st memo b"
    and NoItems: "\<And>st memo b. Q [] st memo b"
    and Items: "\<And>item items st memo b.
        P item st memo b \<Longrightarrow>
        (\<And>y memo1. resolveRefs item root st memo b = (Inr y, memo1) \<Longrightarrow> Q items st memo1 b) \<Longrightarrow>
        Q (item # items) st memo b"
    and NoEntries: "\<And>skip res st memo b. R [] skip res st memo b"
    and Skipped: "\<And>k v rest res st memo b.
        R rest (Some k) res st memo b \<Longrightarrow> R ((k, v) # rest) (Some k) res st memo b"
    and Entry: "\<And>k v rest skip res st memo b.
        skip \<noteq> Some k \<Longrightarrow> P v st memo b \<Longrightarrow>
        (\<And>v' memo1 res'. resolveRefs v root st memo b = (Inr v', memo1) \<Longrightarrow>
            setProp k v' res = Inr res' \<Longrightarrow> R rest skip res' st memo1 b) \<Longrightarrow>
        R ((k, v) # rest) skip res st memo b"
  shows "P obj st memo b" and "Q items st' memo' b'" and "R kvs skip res st'' memo'' b''"
proof -
  let ?P = "\<lambda>obj root0 st memo b. root0 = root \<longrightarrow> P obj st memo b"
  let ?Q = "\<lambda>items root0 st memo b. root0 = root \<longrightarrow> Q items st memo b"
  let ?R = "\<lambda>kvs skip res root0 st memo b. root0 = root \<longrightarrow> R kvs skip res st memo b"
  have step: "?P obj root0 st memo b"
    if arr: "\<And>x x6. x = (if root0 = JUndefined then obj else root0) \<Longrightarrow> obj = JArr x6 \<Longrightarrow>
              ?Q x6 x st memo b"
      and ref: "\<And>x x7 x5 kept xa.
          x = (if root0 = JUndefined then obj else root0) \<Longrightarrow> obj = JObj x7 \<Longrightarrow>
          polymorphicKeyword x7 = None \<Longrightarrow> has_key ''$ref'' x7 \<and> length x7 = 1 \<Longrightarrow>
          getProp obj ''$ref'' = JStr x5 \<Longrightarrow> \<not> \<not> startsWith x5 ''#/'' \<Longrightarrow>
          (if b then keptUnexpanded x x5 else Inr False) = Inr kept \<Longrightarrow> \<not> kept \<Longrightarrow>
          \<not> has_key x5 memo \<Longrightarrow> x5 \<notin> set st \<Longrightarrow> lookupRef x x5 = Inr xa \<Longrightarrow> xa \<noteq> JNull \<Longrightarrow>
          ?P xa x (st @ [x5]) memo b"
      and plain: "\<And>x x7. x = (if root0 = JUndefined then obj else root0) \<Longrightarrow> obj = JObj x7 \<Longrightarrow>
          polymorphicKeyword x7 = None \<Longrightarrow> \<not> (has_key ''$ref'' x7 \<and> length x7 = 1) \<Longrightarrow>
          ?R (entries obj) None [] x st memo b"
      and poly1: "\<And>x x7 x2 x6. x = (if root0 = JUndefined then obj else root0) \<Longrightarrow>
          obj = JObj x7 \<Longrightarrow> polymorphicKeyword x7 = Some x2 \<Longrightarrow> getProp obj x2 = JArr x6 \<Longrightarrow>
          ?Q x6 x st memo True"
      and poly2: "\<And>x x7 x2 x6 xa y c. x = (if root0 = JUndefined then obj else root0) \<Longrightarrow>
          obj = JObj x7 \<Longrightarrow> polymorphicKeyword x7 = Some x2 \<Longrightarrow> getProp obj x2 = JArr x6 \<Longrightarrow>
          (xa, y) = resolveItems x6 x st memo True \<Longrightarrow> xa = Inr c \<Longrightarrow>
          ?R (entries obj) (Some x2) [(x2, JArr c)] x st y b"
    for obj root0 st memo b
  proof
    assume r: "root0 = root"
    then have x: "(if root0 = JUndefined then obj else root0) = root"
      using root by simp
    show "P obj st memo b"
    proof (cases "is_object obj")
      case False
      then show ?thesis by (rule Primitive)
    next
      case True
      then consider xs where "obj = JArr xs" | kvs where "obj = JObj kvs"
        by (cases obj) (auto simp: is_object_def)
      then show ?thesis
      proof cases
        case 1
        with arr [OF x [symmetric] 1] show ?thesis
          by (simp add: Array)
      next
        case obj: 2
        show ?thesis
        proof (cases "polymorphicKeyword kvs")
          case (Some kw)
          show ?thesis
            unfolding obj
          proof (rule Polymorphic [OF Some])
            fix items
            assume "getProp (JObj kvs) kw = JArr items"
            with poly1 [OF x [symmetric] obj Some] obj show "Q items st memo True"
              by simp
          next
            fix items items' memo1
            assume "getProp (JObj kvs) kw = JArr items"
              and "resolveItems items root st memo True = (Inr items', memo1)"
            with poly2 [OF x [symmetric] obj Some, of items "Inr items'" memo1 items'] obj
            show "R (entries (JObj kvs)) (Some kw) [(kw, JArr items')] st memo1 b"
              by simp
          qed
        next
          case None
          show ?thesis
          proof (cases "has_key ''$ref'' kvs \<and> length kvs = 1")
            case False
            with plain [OF x [symmetric] obj None] show ?thesis
              unfolding obj by (intro Plain [OF None]) simp_all
          next
            case True
            then obtain v where kvs: "kvs = [(''$ref'', v)]"
              using pure_ref_shape by blast
            show ?thesis
              unfolding obj kvs
            proof (rule Reference)
              fix p target
              assume "v = JStr p" and "startsWith p ''#/''"
                and "keepTest b root p = Inr False"
                and "\<not> has_key p memo" and "p \<notin> set st" and "lookupRef root p = Inr target"
                and "target \<noteq> JNull"
              with ref [OF x [symmetric] obj None True, of p False target] obj kvs
              show "P target (st @ [p]) memo b"
                by (simp add: getProp_def keepTest_def)
            qed
          qed
        qed
      qed
    qed
  qed
  have items_step: "?Q (item # items) r st memo b"
    if "?P item r st memo b"
      and "\<And>x y c. (x, y) = resolveRefs item r st memo b \<Longrightarrow> x = Inr c \<Longrightarrow> ?Q items r st y b"
    for item items r st memo b
  proof
    assume r: "r = root"
    show "Q (item # items) st memo b"
    proof (rule Items)
      show "P item st memo b" using that(1) r by simp
    next
      fix y memo1
      assume "resolveRefs item root st memo b = (Inr y, memo1)"
      with that(2) [of "Inr y" memo1 y] r show "Q items st memo1 b"
        by simp
    qed
  qed
  have entries_step: "?R ((k, v) # rest) skip res r st memo b"
    if "skip = Some k \<Longrightarrow> ?R rest skip res r st memo b"
      and "skip \<noteq> Some k \<Longrightarrow> ?P v r st memo b"
      and "\<And>x y c res'. skip \<noteq> Some k \<Longrightarrow> (x, y) = resolveRefs v r st memo b \<Longrightarrow> x = Inr c \<Longrightarrow>
             setProp k c res = Inr res' \<Longrightarrow> ?R rest skip res' r st y b"
    for k v rest skip res r st memo b
  proof
    assume r: "r = root"
    show "R ((k, v) # rest) skip res st memo b"
    proof (cases "skip = Some k")
      case True
      with that(1) r show ?thesis by (simp add: Skipped)
    next
      case False
      show ?thesis
      proof (rule Entry [OF False])
        show "P v st memo b" using that(2) False r by simp
      next
        fix v' memo1 res'
        assume "resolveRefs v root st memo b = (Inr v', memo1)" and "setProp k v' res = Inr res'"
        with that(3) [OF False, of "Inr v'" memo1 v' res'] r
        show "R rest skip res' st memo1 b"
          by simp
      qed
    qed
  qed
  have all: "?P obj r st memo b" "?Q items r' st' memo' b'" "?R kvs skip res r'' st'' memo'' b''"
    for r r' r''
  proof (induction obj r st memo b and items r' st' memo' b' and kvs skip res r'' st'' memo'' b''
      rule: resolveRefs_resolveItems_resolveEntries.induct)
    case (1 obj root0 st memo b)
    then show ?case by (rule step)
  next
    case (2 r st memo b)
    show ?case by (simp add: NoItems)
  next
    case (3 item items r st memo b)
    then show ?case by (rule items_step)
  next
    case (4 skip res r st memo b)
    show ?case by (simp add: NoEntries)
  next
    case (5 k v rest skip res r st memo b)
    then show ?case by (rule entries_step)
  qed
  then show "P obj st memo b" and "Q items st' memo' b'" and "R kvs skip res st'' memo'' b''"
    by simp_all
qed

subsection \<open>The memo and the stack hold existing pointers\<close>

lemma pointers_exist_update:
  "pointers_exist root memo st \<Longrightarrow> pointer_exists root p \<Longrightarrow>
   pointers_exist root (AList.update p v memo) st"
  by (auto simp: pointers_exist_def list_all_iff dom_update)

lemma pointers_exist_push:
  "pointers_exist root memo (st @ [p]) \<longleftrightarrow>
   pointers_exist root memo st \<and> pointer_exists root p"
  by (auto simp: pointers_exist_def list_all_iff)

lemma resolve_keeps_pointers_exist:
  assumes "root \<noteq> JUndefined"
  shows "pointers_exist root memo st \<longrightarrow>
           pointers_exist root (snd (resolveRefs obj root st memo b)) st"
    and "pointers_exist root memo' st' \<longrightarrow>
           pointers_exist root (snd (resolveItems items root st' memo' b')) st'"
    and "pointers_exist root memo'' st'' \<longrightarrow>
           pointers_exist root (snd (resolveEntries kvs skip res root st'' memo'' b'')) st''"
  using assms
proof (induct obj st memo b and items st' memo' b' and kvs skip res st'' memo'' b''
    rule: resolve_induct)
  case (Primitive obj st memo b)
  then show ?case by (simp add: resolveRefs_primitive)
next
  case (Array xs st memo b)
  then show ?case
    by (auto simp: resolveRefs_JArr assms split: prod.splits sum.splits)
next
  case (Polymorphic kvs kw st memo b)
  show ?case
  proof
    assume pe: "pointers_exist root memo st"
    show "pointers_exist root (snd (resolveRefs (JObj kvs) root st memo b)) st"
    proof (cases "getProp (JObj kvs) kw")
      case (JArr items)
      obtain r1 memo1 where r1: "resolveItems items root st memo True = (r1, memo1)"
        by (cases "resolveItems items root st memo True")
      have m1: "pointers_exist root memo1 st"
        using Polymorphic(2) [OF JArr] pe r1 by simp
      show ?thesis
      proof (cases r1)
        case (Inl e)
        with r1 m1 JArr Polymorphic(1) show ?thesis
          by (simp add: resolveRefs_polymorphic assms)
      next
        case (Inr items')
        have "pointers_exist root
                (snd (resolveEntries (entries (JObj kvs)) (Some kw) [(kw, JArr items')] root st
                   memo1 b)) st"
          using Polymorphic(3) [OF JArr] r1 Inr m1 by simp
        with r1 Inr JArr Polymorphic(1) show ?thesis
          by (auto simp: resolveRefs_polymorphic assms split: prod.splits sum.splits)
      qed
    qed (use Polymorphic(1) pe in \<open>simp_all add: resolveRefs_polymorphic assms\<close>)
  qed
next
  case (Reference v st memo b)
  show ?case
  proof
    assume pe: "pointers_exist root memo st"
    show "pointers_exist root (snd (resolveRefs (JObj [(''$ref'', v)]) root st memo b)) st"
    proof (cases v)
      case (JStr p)
      have node: "JObj [(''$ref'', v)] = refNode p"
        using JStr by (simp add: refNode_def)
      show ?thesis
      proof (cases rule: ref_cases [where p = p and b = b and root = root and memo = memo and st = st])
        case external
        with pe show ?thesis
          by (simp add: node resolveRefs_refNode_external assms)
      next
        case (untestable e)
        with pe show ?thesis
          by (simp add: node resolveRefs_refNode_unmodelled_test assms)
      next
        case kept
        with pe show ?thesis
          by (simp add: node resolveRefs_refNode_kept assms)
      next
        case memo
        with pe show ?thesis
          by (simp add: node resolveRefs_refNode_memo assms)
      next
        case cycle
        then have "pointer_exists root p"
          using pe pointers_exist_stack by blast
        with cycle pe show ?thesis
          by (simp add: node resolveRefs_refNode_cycle assms pointers_exist_update)
      next
        case (unreadable e)
        with pe show ?thesis
          by (simp add: node resolveRefs_refNode_unmodelled_lookup assms)
      next
        case missing
        with pe show ?thesis
          by (simp add: node resolveRefs_refNode_missing assms)
      next
        case (follow target)
        have found: "pointer_exists root p"
          using follow(5,6) by (rule found_pointer_exists)
        obtain r1 memo1 where r1: "resolveRefs target root (st @ [p]) memo b = (r1, memo1)"
          by (cases "resolveRefs target root (st @ [p]) memo b")
        have inner: "pointers_exist root memo1 (st @ [p])"
          using Reference [OF JStr follow] pe r1 found
          by (simp add: pointers_exist_push)
        then have "pointers_exist root memo1 st"
          by (simp add: pointers_exist_push)
        moreover have "pointers_exist root (AList.update p x memo1) st" for x
          using inner found by (simp add: pointers_exist_push pointers_exist_update)
        ultimately show ?thesis
          unfolding node resolveRefs_refNode_follow [OF assms follow] r1
          by (cases r1) simp_all
      qed
    qed (use pe in \<open>simp_all add: resolveRefs_ref_not_string assms\<close>)
  qed
next
  case (Plain kvs st memo b)
  then show ?case
    by (auto simp: resolveRefs_plain assms split: prod.splits sum.splits)
next
  case (NoItems st memo b)
  then show ?case by simp
next
  case (Items item items st memo b)
  show ?case
  proof
    assume pe: "pointers_exist root memo st"
    obtain r1 memo1 where r1: "resolveRefs item root st memo b = (r1, memo1)"
      by (cases "resolveRefs item root st memo b")
    have m1: "pointers_exist root memo1 st"
      using Items(1) pe r1 by simp
    show "pointers_exist root (snd (resolveItems (item # items) root st memo b)) st"
    proof (cases r1)
      case (Inl e)
      with r1 m1 show ?thesis by simp
    next
      case (Inr y)
      with Items(2) [of y memo1] r1 m1 show ?thesis
        by (auto split: prod.splits sum.splits)
    qed
  qed
next
  case (NoEntries skip res st memo b)
  then show ?case by simp
next
  case (Skipped k v rest res st memo b)
  then show ?case by simp
next
  case (Entry k v rest skip res st memo b)
  show ?case
  proof
    assume pe: "pointers_exist root memo st"
    obtain r1 memo1 where r1: "resolveRefs v root st memo b = (r1, memo1)"
      by (cases "resolveRefs v root st memo b")
    have m1: "pointers_exist root memo1 st"
      using Entry(2) pe r1 by simp
    show "pointers_exist root (snd (resolveEntries ((k, v) # rest) skip res root st memo b)) st"
    proof (cases r1)
      case (Inl e)
      with r1 m1 Entry(1) show ?thesis by simp
    next
      case (Inr v')
      show ?thesis
      proof (cases "setProp k v' res")
        case (Inl e)
        with Inr r1 m1 Entry(1) show ?thesis by simp
      next
        case set: (Inr res')
        with Entry(3) [of v' memo1 res'] Inr r1 m1 Entry(1) show ?thesis
          by simp
      qed
    qed
  qed
qed

subsection \<open>Trees without references\<close>

text \<open>
  A tree on which the resolver has nothing to do: no key \<^verbatim>\<open>$ref\<close>, and no key that the
  resolver or the object it builds treats specially (\<^verbatim>\<open>anyOf\<close>, \<^verbatim>\<open>oneOf\<close>,
  \<^verbatim>\<open>allOf\<close>, \<^verbatim>\<open>__proto__\<close>), in objects with distinct keys. No key is an array
  index either: the keys are then enumerated in the order of their creation, and two
  objects with the same entries are the same list.
\<close>

fun plain_tree :: "json \<Rightarrow> bool" where
  "plain_tree (JObj kvs) =
     (distinct (map fst kvs) \<and>
      list_all (\<lambda>kv. fst kv \<notin> set [''$ref'', ''anyOf'', ''oneOf'', ''allOf'', ''__proto__''] \<and>
                  property_index (fst kv) = None \<and> plain_tree (snd kv)) kvs)"
| "plain_tree (JArr xs) = list_all plain_tree xs"
| "plain_tree v = True"

lemma update_new_key:
  "k \<notin> fst ` set res \<Longrightarrow> AList.update k v res = res @ [(k, v)]"
  by (induction res) auto

lemma plain_tree_no_keyword:
  "plain_tree (JObj kvs) \<Longrightarrow> polymorphicKeyword kvs = None \<and> \<not> has_key ''$ref'' kvs"
  by (auto simp: polymorphicKeyword_def has_key_iff list_all_iff)

lemma plain_tree_entries:
  "plain_tree (JObj kvs) \<Longrightarrow> entries (JObj kvs) = kvs"
  by (simp add: entries_def own_entries_no_index list_all_iff)

lemma plain_tree_identity:
  assumes "root \<noteq> JUndefined"
  shows "plain_tree obj \<longrightarrow> resolveRefs obj root st memo b = (Inr obj, memo)"
    and "list_all plain_tree items \<longrightarrow>
           resolveItems items root st' memo' b' = (Inr items, memo')"
    and "plain_tree (JObj kvs) \<longrightarrow> skip = None \<longrightarrow> fst ` set res \<inter> fst ` set kvs = {} \<longrightarrow>
           resolveEntries kvs skip res root st'' memo'' b'' = (Inr (res @ kvs), memo'')"
  using assms
proof (induct obj st memo b and items st' memo' b' and kvs skip res st'' memo'' b''
    rule: resolve_induct)
  case (Primitive obj st memo b)
  then show ?case by (simp add: resolveRefs_primitive)
next
  case (Array xs st memo b)
  then show ?case by (simp add: resolveRefs_JArr assms)
next
  case (Polymorphic kvs kw st memo b)
  then show ?case
    using plain_tree_no_keyword by fastforce
next
  case (Reference v st memo b)
  then show ?case by simp
next
  case (Plain kvs st memo b)
  show ?case
  proof
    assume tree: "plain_tree (JObj kvs)"
    then have same: "entries (JObj kvs) = kvs"
      by (rule plain_tree_entries)
    with Plain(3) tree have "resolveEntries kvs None [] root st memo b = (Inr kvs, memo)"
      by simp
    with Plain(1,2) same show "resolveRefs (JObj kvs) root st memo b = (Inr (JObj kvs), memo)"
      by (simp add: resolveRefs_plain assms)
  qed
next
  case (NoItems st memo b)
  then show ?case by simp
next
  case (Items item items st memo b)
  then show ?case by simp
next
  case (NoEntries skip res st memo b)
  then show ?case by simp
next
  case (Skipped k v rest res st memo b)
  then show ?case by simp
next
  case (Entry k v rest skip res st memo b)
  show ?case
  proof (intro impI)
    assume tree: "plain_tree (JObj ((k, v) # rest))" and skip: "skip = None"
      and new: "fst ` set res \<inter> fst ` set ((k, v) # rest) = {}"
    have v: "resolveRefs v root st memo b = (Inr v, memo)"
      using Entry(2) tree by simp
    have k: "k \<noteq> ''__proto__''" "k \<notin> fst ` set res"
      using tree new by auto
    then have set: "setProp k v res = Inr (res @ [(k, v)])"
      by (simp add: setProp_def update_new_key)
    have "resolveEntries rest skip (res @ [(k, v)]) root st memo b =
        (Inr ((res @ [(k, v)]) @ rest), memo)"
      using Entry(3) [OF v set] tree skip new by auto
    with v set skip show "resolveEntries ((k, v) # rest) skip res root st memo b =
        (Inr (res @ (k, v) # rest), memo)"
      by simp
  qed
qed

section \<open>A reference whose pointer is missing\<close>

text \<open>
  C1 (the program departs from it). The claim: a pure internal reference whose pointer
  does not exist in the document, met outside any polymorphic keyword, resolves to the
  placeholder "Unresolved reference", which is memoized for the pointer. What the program
  does: \<^verbatim>\<open>lookupRef\<close> returns \<^verbatim>\<open>null\<close> for a missing path and never throws, so the
  \<^verbatim>\<open>catch\<close> block that builds the placeholder is not entered; control falls through to
  the final \<^verbatim>\<open>return obj\<close>. In every state of a parse the reference node comes back
  unexpanded and the memo is left as it was. The hypothesis \<open>lookupRef root p = Inr JNull\<close>
  says that the walk ended on a segment that the value reached neither owns nor inherits
  (or on a \<^verbatim>\<open>null\<close>); a pointer with a segment that names an inherited member, such as
  \<^verbatim>\<open>#/components/schemas/toString\<close>, has the outcome \<open>Inl Unmodelled\<close> and is not
  covered.
\<close>

theorem missing_pointer_returned_unexpanded:
  assumes "root \<noteq> JUndefined" and "startsWith p ''#/''" and "lookupRef root p = Inr JNull"
    and "pointers_exist root memo resolutionStack"
  shows "resolveRefs (refNode p) root resolutionStack memo False = (Inr (refNode p), memo)"
proof -
  have absent: "\<not> pointer_exists root p"
    using assms(3) by (rule missing_pointer_not_exists)
  have "\<not> has_key p memo"
    using absent assms(4) pointers_exist_memo by blast
  moreover have "p \<notin> set resolutionStack"
    using absent assms(4) pointers_exist_stack by blast
  ultimately show ?thesis
    using assms(1,3) by (simp add: resolveRefs_refNode_missing)
qed

lemma lookupRef_missing_example:
  "lookupRef (JObj [(''components'', JObj [(''schemas'', JObj [])])]) ''#/components/schemas/Missing''
     = Inr JNull"
  by (simp add: lookupRef_def startsWith_def is_object_def js_in_def has_key_def getProp_def
      inherited_member_def object_prototype_members_def)

theorem missing_pointer_returned_unexpanded_witness:
  "resolveRefs (refNode ''#/components/schemas/Missing'')
     (JObj [(''components'', JObj [(''schemas'', JObj [])])]) [] [] False =
   (Inr (JObj [(''$ref'', JStr ''#/components/schemas/Missing'')]), []) \<and>
   Inr (JObj [(''$ref'', JStr ''#/components/schemas/Missing'')]) \<noteq>
     (Inr unresolvedPlaceholder :: error + json)"
  using missing_pointer_returned_unexpanded
    [of "JObj [(''components'', JObj [(''schemas'', JObj [])])]" "''#/components/schemas/Missing''"
        "[]" "[]"]
  by (simp add: lookupRef_missing_example startsWith_def pointers_exist_def refNode_def
      unresolvedPlaceholder_def)

section \<open>References under a polymorphic keyword\<close>









section \<open>Self-referential schemas\<close>

text \<open>
  While a pointer is on the resolution stack, the memo holds for it either nothing or the
  placeholder of a circular reference: its own result is stored only when the call that
  pushed it returns.
\<close>

definition cycle_memo_ok :: "string \<Rightarrow> memo \<Rightarrow> bool" where
  "cycle_memo_ok p memo = (case map_of memo p of None \<Rightarrow> True | Some v \<Rightarrow> v = circularPlaceholder)"

lemma cycle_memo_ok_update_other:
  "q \<noteq> p \<Longrightarrow> cycle_memo_ok p (AList.update q v memo) = cycle_memo_ok p memo"
  by (simp add: cycle_memo_ok_def update_conv')

lemma cycle_memo_ok_update_placeholder:
  "cycle_memo_ok p (AList.update p circularPlaceholder memo)"
  by (simp add: cycle_memo_ok_def update_conv')

lemma resolve_keeps_cycle_memo_ok:
  assumes "root \<noteq> JUndefined"
  shows "p \<in> set st \<longrightarrow> cycle_memo_ok p memo \<longrightarrow>
           cycle_memo_ok p (snd (resolveRefs obj root st memo b))"
    and "p \<in> set st' \<longrightarrow> cycle_memo_ok p memo' \<longrightarrow>
           cycle_memo_ok p (snd (resolveItems items root st' memo' b'))"
    and "p \<in> set st'' \<longrightarrow> cycle_memo_ok p memo'' \<longrightarrow>
           cycle_memo_ok p (snd (resolveEntries kvs skip res root st'' memo'' b''))"
  using assms
proof (induct obj st memo b and items st' memo' b' and kvs skip res st'' memo'' b''
    rule: resolve_induct)
  case (Primitive obj st memo b)
  then show ?case by (simp add: resolveRefs_primitive)
next
  case (Array xs st memo b)
  then show ?case
    by (auto simp: resolveRefs_JArr assms split: prod.splits sum.splits)
next
  case (Polymorphic kvs kw st memo b)
  show ?case
  proof (intro impI)
    assume p: "p \<in> set st" and ok: "cycle_memo_ok p memo"
    show "cycle_memo_ok p (snd (resolveRefs (JObj kvs) root st memo b))"
    proof (cases "getProp (JObj kvs) kw")
      case (JArr items)
      obtain r1 memo1 where r1: "resolveItems items root st memo True = (r1, memo1)"
        by (cases "resolveItems items root st memo True")
      have m1: "cycle_memo_ok p memo1"
        using Polymorphic(2) [OF JArr] p ok r1 by simp
      show ?thesis
      proof (cases r1)
        case (Inl e)
        with r1 m1 JArr Polymorphic(1) show ?thesis
          by (simp add: resolveRefs_polymorphic assms)
      next
        case (Inr items')
        have "cycle_memo_ok p
                (snd (resolveEntries (entries (JObj kvs)) (Some kw) [(kw, JArr items')] root st
                   memo1 b))"
          using Polymorphic(3) [OF JArr] r1 Inr m1 p by simp
        with r1 Inr JArr Polymorphic(1) show ?thesis
          by (auto simp: resolveRefs_polymorphic assms split: prod.splits sum.splits)
      qed
    qed (use Polymorphic(1) ok in \<open>simp_all add: resolveRefs_polymorphic assms\<close>)
  qed
next
  case (Reference v st memo b)
  show ?case
  proof (intro impI)
    assume p: "p \<in> set st" and ok: "cycle_memo_ok p memo"
    show "cycle_memo_ok p (snd (resolveRefs (JObj [(''$ref'', v)]) root st memo b))"
    proof (cases v)
      case (JStr q)
      have node: "JObj [(''$ref'', v)] = refNode q"
        using JStr by (simp add: refNode_def)
      show ?thesis
      proof (cases rule: ref_cases [where p = q and b = b and root = root and memo = memo
            and st = st])
        case external
        with ok show ?thesis
          by (simp add: node resolveRefs_refNode_external assms)
      next
        case (untestable e)
        with ok show ?thesis
          by (simp add: node resolveRefs_refNode_unmodelled_test assms)
      next
        case kept
        with ok show ?thesis
          by (simp add: node resolveRefs_refNode_kept assms)
      next
        case memo
        with ok show ?thesis
          by (simp add: node resolveRefs_refNode_memo assms)
      next
        case cycle
        with ok show ?thesis
          by (cases "q = p")
             (simp_all add: node resolveRefs_refNode_cycle assms cycle_memo_ok_update_other
                cycle_memo_ok_update_placeholder)
      next
        case (unreadable e)
        with ok show ?thesis
          by (simp add: node resolveRefs_refNode_unmodelled_lookup assms)
      next
        case missing
        with ok show ?thesis
          by (simp add: node resolveRefs_refNode_missing assms)
      next
        case (follow target)
        obtain r1 memo1 where r1: "resolveRefs target root (st @ [q]) memo b = (r1, memo1)"
          by (cases "resolveRefs target root (st @ [q]) memo b")
        have inner: "cycle_memo_ok p memo1"
          using Reference [OF JStr follow] p ok r1 by simp
        moreover have "q \<noteq> p"
          using follow(4) p by blast
        ultimately have "cycle_memo_ok p (AList.update q x memo1)" for x
          by (simp add: cycle_memo_ok_update_other)
        with inner show ?thesis
          unfolding node resolveRefs_refNode_follow [OF assms follow] r1
          by (cases r1) simp_all
      qed
    qed (use ok in \<open>simp_all add: resolveRefs_ref_not_string assms\<close>)
  qed
next
  case (Plain kvs st memo b)
  then show ?case
    by (auto simp: resolveRefs_plain assms split: prod.splits sum.splits)
next
  case (NoItems st memo b)
  then show ?case by simp
next
  case (Items item items st memo b)
  show ?case
  proof (intro impI)
    assume p: "p \<in> set st" and ok: "cycle_memo_ok p memo"
    obtain r1 memo1 where r1: "resolveRefs item root st memo b = (r1, memo1)"
      by (cases "resolveRefs item root st memo b")
    have m1: "cycle_memo_ok p memo1"
      using Items(1) p ok r1 by simp
    show "cycle_memo_ok p (snd (resolveItems (item # items) root st memo b))"
    proof (cases r1)
      case (Inl e)
      with r1 m1 show ?thesis by simp
    next
      case (Inr y)
      with Items(2) [of y memo1] r1 m1 p show ?thesis
        by (auto split: prod.splits sum.splits)
    qed
  qed
next
  case (NoEntries skip res st memo b)
  then show ?case by simp
next
  case (Skipped k v rest res st memo b)
  then show ?case by simp
next
  case (Entry k v rest skip res st memo b)
  show ?case
  proof (intro impI)
    assume p: "p \<in> set st" and ok: "cycle_memo_ok p memo"
    obtain r1 memo1 where r1: "resolveRefs v root st memo b = (r1, memo1)"
      by (cases "resolveRefs v root st memo b")
    have m1: "cycle_memo_ok p memo1"
      using Entry(2) p ok r1 by simp
    show "cycle_memo_ok p (snd (resolveEntries ((k, v) # rest) skip res root st memo b))"
    proof (cases r1)
      case (Inl e)
      with r1 m1 Entry(1) show ?thesis by simp
    next
      case (Inr v')
      show ?thesis
      proof (cases "setProp k v' res")
        case (Inl e)
        with Inr r1 m1 Entry(1) show ?thesis by simp
      next
        case set: (Inr res')
        with Entry(3) [of v' memo1 res'] Inr r1 m1 Entry(1) p show ?thesis
          by simp
      qed
    qed
  qed
qed

lemma resolveEntries_other_keys:
  "resolveEntries kvs skip res root st memo b = (Inr res', memo') \<Longrightarrow> k \<notin> fst ` set kvs \<Longrightarrow>
   map_of res' k = map_of res k"
proof (induction kvs arbitrary: res memo)
  case Nil
  then show ?case by simp
next
  case (Cons kv rest)
  obtain k' v where kv: "kv = (k', v)"
    by (cases kv)
  have k': "k' \<noteq> k" and rest: "k \<notin> fst ` set rest"
    using Cons.prems(2) kv by auto
  show ?case
  proof (cases "skip = Some k'")
    case True
    with Cons kv rest show ?thesis by simp
  next
    case False
    obtain r1 memo1 where r1: "resolveRefs v root st memo b = (r1, memo1)"
      by (cases "resolveRefs v root st memo b")
    show ?thesis
    proof (cases r1)
      case (Inl e)
      with Cons.prems(1) kv False r1 show ?thesis by simp
    next
      case (Inr v')
      with Cons.prems(1) kv False r1
      have "resolveEntries rest skip (AList.update k' v' res) root st memo1 b = (Inr res', memo')"
        by (simp add: setProp_def split: if_splits)
      from Cons.IH [OF this rest] k' show ?thesis
        by (simp add: update_conv')
    qed
  qed
qed

lemma cyclic_occurrence_placeholder:
  assumes "root \<noteq> JUndefined" and "startsWith p ''#/''" and "p \<in> set st"
    and "cycle_memo_ok p memo"
  shows "fst (resolveRefs (refNode p) root st memo False) = Inr circularPlaceholder"
    and "cycle_memo_ok p (snd (resolveRefs (refNode p) root st memo False))"
proof -
  show "fst (resolveRefs (refNode p) root st memo False) = Inr circularPlaceholder"
  proof (cases "has_key p memo")
    case True
    then have "map_of memo p = Some circularPlaceholder"
      using assms(4) by (auto simp: cycle_memo_ok_def has_key_def)
    with True assms show ?thesis
      by (simp add: resolveRefs_refNode_memo getProp_def)
  next
    case False
    with assms show ?thesis
      by (simp add: resolveRefs_refNode_cycle)
  qed
  show "cycle_memo_ok p (snd (resolveRefs (refNode p) root st memo False))"
    using resolve_keeps_cycle_memo_ok(1) [OF assms(1)] assms(3,4) by blast
qed

lemma resolveEntries_cyclic_entry:
  assumes "root \<noteq> JUndefined" and "startsWith p ''#/''" and "p \<in> set st"
  shows "resolveEntries kvs skip res root st memo False = (Inr res', memo') \<Longrightarrow>
    cycle_memo_ok p memo \<Longrightarrow> distinct (map fst kvs) \<Longrightarrow> map_of kvs k = Some (refNode p) \<Longrightarrow>
    skip \<noteq> Some k \<Longrightarrow> map_of res' k = Some circularPlaceholder"
proof (induction kvs arbitrary: res memo)
  case Nil
  then show ?case by simp
next
  case (Cons kv rest)
  obtain k' v where kv: "kv = (k', v)"
    by (cases kv)
  show ?case
  proof (cases "k' = k")
    case True
    then have v: "v = refNode p" and rest: "k \<notin> fst ` set rest"
      using Cons.prems(3,4) kv by auto
    obtain r1 memo1 where r1: "resolveRefs (refNode p) root st memo False = (r1, memo1)"
      by (cases "resolveRefs (refNode p) root st memo False")
    then have "r1 = Inr circularPlaceholder"
      using cyclic_occurrence_placeholder(1) [OF assms Cons.prems(2)] by simp
    with Cons.prems(1,5) kv True v r1
    have "resolveEntries rest skip (AList.update k circularPlaceholder res) root st memo1 False =
        (Inr res', memo')"
      by (simp add: setProp_def split: if_splits)
    from resolveEntries_other_keys [OF this rest] show ?thesis
      by (simp add: update_conv')
  next
    case False
    then have in_rest: "map_of rest k = Some (refNode p)" and d: "distinct (map fst rest)"
      using Cons.prems(3,4) kv by auto
    show ?thesis
    proof (cases "skip = Some k'")
      case True
      with Cons.prems(1) kv have "resolveEntries rest skip res root st memo False = (Inr res', memo')"
        by simp
      from Cons.IH [OF this Cons.prems(2) d in_rest Cons.prems(5)] show ?thesis .
    next
      case not_skipped: False
      obtain r1 memo1 where r1: "resolveRefs v root st memo False = (r1, memo1)"
        by (cases "resolveRefs v root st memo False")
      have ok1: "cycle_memo_ok p memo1"
        using resolve_keeps_cycle_memo_ok(1) [OF assms(1), of p st memo v False] assms(3)
          Cons.prems(2) r1 by simp
      show ?thesis
      proof (cases r1)
        case (Inl e)
        with Cons.prems(1) kv not_skipped r1 show ?thesis by simp
      next
        case (Inr v')
        with Cons.prems(1) kv not_skipped r1
        have "resolveEntries rest skip (AList.update k' v' res) root st memo1 False =
            (Inr res', memo')"
          by (simp add: setProp_def split: if_splits)
        from Cons.IH [OF this ok1 d in_rest Cons.prems(5)] show ?thesis .
      qed
    qed
  qed
qed

text \<open>
  A schema whose property \<open>k\<close> is a reference to the schema itself, at the pointer
  \<open>p\<close>, and whose other properties are trees without references; and the same schema
  with the reference replaced by the placeholder.
\<close>

definition refers_to_itself :: "string \<Rightarrow> string \<Rightarrow> (string \<times> json) list \<Rightarrow> bool" where
  "refers_to_itself p k kvs =
     (distinct (map fst kvs) \<and> map_of kvs k = Some (refNode p) \<and>
      list_all (\<lambda>kv. fst kv \<notin> set [''$ref'', ''anyOf'', ''oneOf'', ''allOf'', ''__proto__''] \<and>
                  property_index (fst kv) = None \<and> (fst kv = k \<or> plain_tree (snd kv))) kvs)"

definition cycle_replaced :: "string \<Rightarrow> (string \<times> json) list \<Rightarrow> (string \<times> json) list" where
  "cycle_replaced k kvs = map (\<lambda>kv. if fst kv = k then (k, circularPlaceholder) else kv) kvs"

lemma resolveEntries_cycle_replaced:
  assumes "root \<noteq> JUndefined" and "startsWith p ''#/''" and "p \<in> set st"
  shows "cycle_memo_ok p memo \<Longrightarrow> distinct (map fst kvs) \<Longrightarrow>
    fst ` set res \<inter> fst ` set kvs = {} \<Longrightarrow>
    list_all (\<lambda>kv. fst kv \<noteq> ''__proto__'' \<and>
                (if fst kv = k then snd kv = refNode p else plain_tree (snd kv))) kvs \<Longrightarrow>
    resolveEntries kvs None res root st memo False =
      (Inr (res @ cycle_replaced k kvs),
       if k \<in> fst ` set kvs \<and> \<not> has_key p memo
       then AList.update p circularPlaceholder memo else memo)"
proof (induction kvs arbitrary: res memo)
  case Nil
  then show ?case by (simp add: cycle_replaced_def)
next
  case (Cons kv rest)
  obtain k' v where kv: "kv = (k', v)"
    by (cases kv)
  have proto: "k' \<noteq> ''__proto__''" and new: "k' \<notin> fst ` set res"
    and rest_new: "fst ` set (res @ [(k', x)]) \<inter> fst ` set rest = {}" for x
    using Cons.prems(2,3,4) kv by auto
  have set: "setProp k' x res = Inr (res @ [(k', x)])" for x
    using proto new by (simp add: setProp_def update_new_key)
  have d: "distinct (map fst rest)" and not_rest: "k' \<notin> fst ` set rest"
    using Cons.prems(2) kv by auto
  have rest_ok: "list_all (\<lambda>kv. fst kv \<noteq> ''__proto__'' \<and>
      (if fst kv = k then snd kv = refNode p else plain_tree (snd kv))) rest"
    using Cons.prems(4) by simp
  show ?case
  proof (cases "k' = k")
    case True
    then have v: "v = refNode p"
      using Cons.prems(4) kv by simp
    let ?memo1 = "if has_key p memo then memo else AList.update p circularPlaceholder memo"
    have occurrence: "resolveRefs (refNode p) root st memo False = (Inr circularPlaceholder, ?memo1)"
    proof (cases "has_key p memo")
      case True
      then have "map_of memo p = Some circularPlaceholder"
        using Cons.prems(1) by (auto simp: cycle_memo_ok_def has_key_def)
      with True assms show ?thesis
        by (simp add: resolveRefs_refNode_memo getProp_def)
    next
      case False
      with assms show ?thesis
        by (simp add: resolveRefs_refNode_cycle)
    qed
    have ok1: "cycle_memo_ok p ?memo1"
      using Cons.prems(1) by (simp add: cycle_memo_ok_update_placeholder)
    have "resolveEntries rest None (res @ [(k, circularPlaceholder)]) root st ?memo1 False =
        (Inr ((res @ [(k, circularPlaceholder)]) @ cycle_replaced k rest),
         if k \<in> fst ` set rest \<and> \<not> has_key p ?memo1
         then AList.update p circularPlaceholder ?memo1 else ?memo1)"
      using Cons.IH [OF ok1 d _ rest_ok] rest_new True by blast
    with not_rest True have "resolveEntries rest None (res @ [(k, circularPlaceholder)]) root st
        ?memo1 False = (Inr (res @ (k, circularPlaceholder) # cycle_replaced k rest), ?memo1)"
      by simp
    with occurrence set True v kv show ?thesis
      by (simp add: cycle_replaced_def)
  next
    case False
    then have "plain_tree v"
      using Cons.prems(4) kv by simp
    then have plain: "resolveRefs v root st memo False = (Inr v, memo)"
      using plain_tree_identity(1) [OF assms(1)] by blast
    have "resolveEntries rest None (res @ [(k', v)]) root st memo False =
        (Inr ((res @ [(k', v)]) @ cycle_replaced k rest),
         if k \<in> fst ` set rest \<and> \<not> has_key p memo
         then AList.update p circularPlaceholder memo else memo)"
      using Cons.IH [OF Cons.prems(1) d _ rest_ok] rest_new by blast
    with plain set False kv show ?thesis
      by (simp add: cycle_replaced_def)
  qed
qed

definition cyclic_example_root :: json where
  "cyclic_example_root =
     JObj [(''components'',
            JObj [(''schemas'',
                   JObj [(''A'', JObj [(''type'', JStr ''object''),
                                       (''next'', refNode ''#/components/schemas/A'')]),
                         (''B'', refNode ''#/components/schemas/B'')])])]"

lemma cyclic_example_lookups:
  "lookupRef cyclic_example_root ''#/components/schemas/A'' =
     Inr (JObj [(''type'', JStr ''object''), (''next'', refNode ''#/components/schemas/A'')])"
  "lookupRef cyclic_example_root ''#/components/schemas/B'' =
     Inr (refNode ''#/components/schemas/B'')"
  by (simp_all add: cyclic_example_root_def lookupRef_def startsWith_def is_object_def
      js_in_def has_key_def getProp_def)

lemma self_reference_example_result:
  "resolveRefs (refNode ''#/components/schemas/A'') cyclic_example_root [] [] False =
     (Inr (JObj [(''type'', JStr ''object''), (''next'', circularPlaceholder)]),
      [(''#/components/schemas/A'',
        JObj [(''type'', JStr ''object''), (''next'', circularPlaceholder)])])"
proof -
  have root: "cyclic_example_root \<noteq> JUndefined"
    by (simp add: cyclic_example_root_def)
  have inner: "resolveRefs
      (JObj [(''type'', JStr ''object''), (''next'', refNode ''#/components/schemas/A'')])
      cyclic_example_root [''#/components/schemas/A''] [] False =
     (Inr (JObj [(''type'', JStr ''object''), (''next'', circularPlaceholder)]),
      [(''#/components/schemas/A'', circularPlaceholder)])"
    by (simp add: resolveRefs_plain [OF root] polymorphicKeyword_def has_key_def setProp_def
        resolveRefs_primitive is_object_def resolveRefs_refNode_cycle [OF root] startsWith_def
        entries_plain_keys)
  show ?thesis
    by (subst resolveRefs_refNode_follow [OF root, where target =
          "JObj [(''type'', JStr ''object''), (''next'', refNode ''#/components/schemas/A'')]"])
       (simp_all add: cyclic_example_lookups startsWith_def has_key_def inner)
qed

text \<open>
  C5. Let the pointer \<open>p\<close> name a schema \<open>A\<close> of the document and let a reference to
  \<open>p\<close> be resolved outside any polymorphic keyword. The placeholder is the object
  \<^verbatim>\<open>{type: "object", description: "Circular reference"}\<close>. (1) At an occurrence of the
  reference met while \<open>A\<close> is being resolved, that is while \<open>p\<close> is on the stack (the
  memo then holds for \<open>p\<close> nothing or the placeholder, lemma
  \<open>resolve_keeps_cycle_memo_ok\<close>), the result is the placeholder "Circular reference"
  and the memo holds the placeholder under \<open>p\<close> afterwards. (2) If \<open>A\<close> is that
  reference itself, and \<open>p\<close> is neither memoized nor on the stack, the whole result is the
  placeholder and the memo holds it under \<open>p\<close>. (3) If \<open>A\<close> is an object with a property
  \<open>k\<close> that is that reference, and \<open>p\<close> is neither memoized nor on the stack, then either
  the resolution of another part of \<open>A\<close> left the model (\<open>Inl Unmodelled\<close>), or the
  result is an object whose property \<open>k\<close> is the placeholder (or the placeholder
  "Unresolved reference" if resolving another part of \<open>A\<close> threw), and this result is
  what the memo holds under \<open>p\<close> once the outer call has returned. (4) If moreover the
  other properties of \<open>A\<close> are trees without references, the result is \<open>A\<close> with the
  property \<open>k\<close> replaced by the placeholder, exactly, and the memo is the memo before
  the call with this result stored under \<open>p\<close>.
\<close>

theorem self_reference_gets_placeholder:
  assumes "root \<noteq> JUndefined" and "startsWith p ''#/''"
  shows "circularPlaceholder =
           JObj [(''type'', JStr ''object''), (''description'', JStr ''Circular reference'')] \<and>
         (p \<in> set st \<longrightarrow> cycle_memo_ok p memo \<longrightarrow>
            fst (resolveRefs (refNode p) root st memo False) = Inr circularPlaceholder \<and>
            map_of (snd (resolveRefs (refNode p) root st memo False)) p =
              Some circularPlaceholder) \<and>
         (p \<notin> set st \<longrightarrow> \<not> has_key p memo \<longrightarrow> lookupRef root p = Inr (refNode p) \<longrightarrow>
            resolveRefs (refNode p) root st memo False =
              (Inr circularPlaceholder, AList.update p circularPlaceholder memo)) \<and>
         (p \<notin> set st \<longrightarrow> \<not> has_key p memo \<longrightarrow> lookupRef root p = Inr (JObj kvs) \<longrightarrow>
            polymorphicKeyword kvs = None \<longrightarrow>
            \<not> (has_key ''$ref'' kvs \<and> length kvs = 1) \<longrightarrow> distinct (map fst kvs) \<longrightarrow>
            map_of kvs k = Some (refNode p) \<longrightarrow>
            fst (resolveRefs (refNode p) root st memo False) = Inl Unmodelled \<or>
            (\<exists>r memo'. resolveRefs (refNode p) root st memo False = (Inr r, memo') \<and>
               map_of memo' p = Some r \<and>
               (r = unresolvedPlaceholder \<or>
                (\<exists>kvs'. r = JObj kvs' \<and> map_of kvs' k = Some circularPlaceholder)))) \<and>
         (p \<notin> set st \<longrightarrow> \<not> has_key p memo \<longrightarrow> lookupRef root p = Inr (JObj kvs) \<longrightarrow>
            refers_to_itself p k kvs \<longrightarrow>
            resolveRefs (refNode p) root st memo False =
              (Inr (JObj (cycle_replaced k kvs)),
               AList.update p (JObj (cycle_replaced k kvs)) memo))"
proof (intro conjI impI)
  show "circularPlaceholder =
      JObj [(''type'', JStr ''object''), (''description'', JStr ''Circular reference'')]"
    by (simp add: circularPlaceholder_def)
next
  assume on_stack: "p \<in> set st" and ok: "cycle_memo_ok p memo"
  show "fst (resolveRefs (refNode p) root st memo False) = Inr circularPlaceholder"
    using assms on_stack ok by (rule cyclic_occurrence_placeholder(1))
  show "map_of (snd (resolveRefs (refNode p) root st memo False)) p = Some circularPlaceholder"
  proof (cases "has_key p memo")
    case True
    then have "map_of memo p = Some circularPlaceholder"
      using ok by (auto simp: cycle_memo_ok_def has_key_def)
    with True assms show ?thesis
      by (simp add: resolveRefs_refNode_memo)
  next
    case False
    with assms on_stack show ?thesis
      by (simp add: resolveRefs_refNode_cycle update_conv')
  qed
next
  assume fresh: "p \<notin> set st" and new: "\<not> has_key p memo"
    and self: "lookupRef root p = Inr (refNode p)"
  have found: "refNode p \<noteq> JNull"
    by (simp add: refNode_def)
  have inner: "resolveRefs (refNode p) root (st @ [p]) memo False =
      (Inr circularPlaceholder, AList.update p circularPlaceholder memo)"
    using assms new by (simp add: resolveRefs_refNode_cycle)
  show "resolveRefs (refNode p) root st memo False =
      (Inr circularPlaceholder, AList.update p circularPlaceholder memo)"
    using assms fresh new self found
    by (subst resolveRefs_refNode_follow [where target = "refNode p"]) (simp_all add: inner)
next
  assume fresh: "p \<notin> set st" and new: "\<not> has_key p memo"
    and target: "lookupRef root p = Inr (JObj kvs)"
    and plain: "polymorphicKeyword kvs = None"
    and len: "\<not> (has_key ''$ref'' kvs \<and> length kvs = 1)"
    and d: "distinct (map fst kvs)" and k: "map_of kvs k = Some (refNode p)"
  have follow: "resolveRefs (refNode p) root st memo False =
     (case resolveRefs (JObj kvs) root (st @ [p]) memo False of
        (Inr resolvedObj, memo1) \<Rightarrow> (Inr resolvedObj, AList.update p resolvedObj memo1)
      | (Inl e, memo1) \<Rightarrow>
          if e = Unmodelled then (Inl e, memo1)
          else (Inr unresolvedPlaceholder, AList.update p unresolvedPlaceholder memo1))"
    using assms fresh new target
    by (subst resolveRefs_refNode_follow [where target = "JObj kvs"]) simp_all
  let ?kvs = "entries (JObj kvs)"
  have inner: "resolveRefs (JObj kvs) root (st @ [p]) memo False =
     (case resolveEntries ?kvs None [] root (st @ [p]) memo False of
        (Inl e, memo1) \<Rightarrow> (Inl e, memo1)
      | (Inr result, memo1) \<Rightarrow> (Inr (JObj result), memo1))"
    using assms(1) plain len by (simp add: resolveRefs_plain)
  have d': "distinct (map fst ?kvs)" and k': "map_of ?kvs k = Some (refNode p)"
    using d k by (simp_all add: entries_def distinct_own_entries map_of_own_entries)
  obtain r1 memo1 where r1: "resolveEntries ?kvs None [] root (st @ [p]) memo False = (r1, memo1)"
    by (cases "resolveEntries ?kvs None [] root (st @ [p]) memo False")
  have ok: "cycle_memo_ok p memo"
    using new by (simp add: cycle_memo_ok_def has_key_def)
  show "fst (resolveRefs (refNode p) root st memo False) = Inl Unmodelled \<or>
     (\<exists>r memo'. resolveRefs (refNode p) root st memo False = (Inr r, memo') \<and>
      map_of memo' p = Some r \<and>
      (r = unresolvedPlaceholder \<or>
       (\<exists>kvs'. r = JObj kvs' \<and> map_of kvs' k = Some circularPlaceholder)))"
  proof (cases r1)
    case (Inl e)
    with follow inner r1 show ?thesis
      by (simp add: update_conv')
  next
    case (Inr res')
    have "map_of res' k = Some circularPlaceholder"
      using resolveEntries_cyclic_entry [OF assms(1,2), of "st @ [p]" ?kvs None "[]" memo res' memo1 k]
        r1 Inr ok d' k' by simp
    with follow inner r1 Inr show ?thesis
      by (simp add: update_conv')
  qed
next
  assume fresh: "p \<notin> set st" and new: "\<not> has_key p memo"
    and target: "lookupRef root p = Inr (JObj kvs)" and self: "refers_to_itself p k kvs"
  have keys: "list_all (\<lambda>kv. fst kv \<notin> set [''$ref'', ''anyOf'', ''oneOf'', ''allOf'', ''__proto__''] \<and>
      property_index (fst kv) = None \<and> (fst kv = k \<or> plain_tree (snd kv))) kvs"
    and d: "distinct (map fst kvs)" and k: "map_of kvs k = Some (refNode p)"
    using self by (simp_all add: refers_to_itself_def)
  have plain: "polymorphicKeyword kvs = None" and no_ref: "\<not> has_key ''$ref'' kvs"
    using keys by (auto simp: polymorphicKeyword_def has_key_iff list_all_iff)
  have same: "entries (JObj kvs) = kvs"
    using keys by (simp add: entries_def own_entries_no_index list_all_iff)
  have k_in: "k \<in> fst ` set kvs"
    using k by (metis domI dom_map_of_conv_image_fst)
  have each: "list_all (\<lambda>kv. fst kv \<noteq> ''__proto__'' \<and>
      (if fst kv = k then snd kv = refNode p else plain_tree (snd kv))) kvs"
    unfolding list_all_iff
  proof
    fix kv
    assume kv: "kv \<in> set kvs"
    then have "map_of kvs (fst kv) = Some (snd kv)"
      using d by simp
    with k have "fst kv = k \<Longrightarrow> snd kv = refNode p"
      by simp
    with keys kv show "fst kv \<noteq> ''__proto__'' \<and>
        (if fst kv = k then snd kv = refNode p else plain_tree (snd kv))"
      by (auto simp: list_all_iff)
  qed
  have ok: "cycle_memo_ok p (memo :: memo)"
    using new by (simp add: cycle_memo_ok_def has_key_def)
  have "resolveEntries kvs None [] root (st @ [p]) memo False =
      (Inr ([] @ cycle_replaced k kvs),
       if k \<in> fst ` set kvs \<and> \<not> has_key p memo
       then AList.update p circularPlaceholder memo else memo)"
    using assms by (intro resolveEntries_cycle_replaced ok d each) simp_all
  then have inner: "resolveRefs (JObj kvs) root (st @ [p]) memo False =
      (Inr (JObj (cycle_replaced k kvs)), AList.update p circularPlaceholder memo)"
    using assms(1) plain no_ref same k_in new by (simp add: resolveRefs_plain)
  show "resolveRefs (refNode p) root st memo False =
      (Inr (JObj (cycle_replaced k kvs)), AList.update p (JObj (cycle_replaced k kvs)) memo)"
    using assms fresh new target
    by (subst resolveRefs_refNode_follow [where target = "JObj kvs"]) (simp_all add: inner)
qed

theorem self_reference_gets_placeholder_witness:
  "fst (resolveRefs (refNode ''#/components/schemas/A'') cyclic_example_root
     [''#/components/schemas/A''] [] False) = Inr circularPlaceholder \<and>
   map_of (snd (resolveRefs (refNode ''#/components/schemas/A'') cyclic_example_root
     [''#/components/schemas/A''] [] False)) ''#/components/schemas/A'' =
     Some circularPlaceholder \<and>
   resolveRefs (refNode ''#/components/schemas/B'') cyclic_example_root [] [] False =
     (Inr circularPlaceholder, [(''#/components/schemas/B'', circularPlaceholder)]) \<and>
   (\<exists>r memo'.
      resolveRefs (refNode ''#/components/schemas/A'') cyclic_example_root [] [] False =
        (Inr r, memo') \<and>
      map_of memo' ''#/components/schemas/A'' = Some r \<and>
      (r = unresolvedPlaceholder \<or>
       (\<exists>kvs'. r = JObj kvs' \<and> map_of kvs' ''next'' = Some circularPlaceholder))) \<and>
   refers_to_itself ''#/components/schemas/A'' ''next''
     [(''type'', JStr ''object''), (''next'', refNode ''#/components/schemas/A'')] \<and>
   resolveRefs (refNode ''#/components/schemas/A'') cyclic_example_root [] [] False =
     (Inr (JObj [(''type'', JStr ''object''), (''next'', circularPlaceholder)]),
      [(''#/components/schemas/A'',
        JObj [(''type'', JStr ''object''), (''next'', circularPlaceholder)])])"
proof -
  have itself: "refers_to_itself ''#/components/schemas/A'' ''next''
      [(''type'', JStr ''object''), (''next'', refNode ''#/components/schemas/A'')]"
    by (simp add: refers_to_itself_def property_index_not_numeral)
  have replaced: "cycle_replaced ''next''
      [(''type'', JStr ''object''), (''next'', refNode ''#/components/schemas/A'')] =
      [(''type'', JStr ''object''), (''next'', circularPlaceholder)]"
    by (simp add: cycle_replaced_def)
  have root: "cyclic_example_root \<noteq> JUndefined"
    by (simp add: cyclic_example_root_def)
  have a: "startsWith ''#/components/schemas/A'' ''#/''"
    and b: "startsWith ''#/components/schemas/B'' ''#/''"
    by (simp_all add: startsWith_def)
  have fresh: "\<not> has_key q []" "cycle_memo_ok q []" for q
    by (simp_all add: has_key_def cycle_memo_ok_def)
  have shape:
    "polymorphicKeyword [(''type'', JStr ''object''), (''next'', refNode ''#/components/schemas/A'')]
       = None"
    "\<not> (has_key ''$ref''
          [(''type'', JStr ''object''), (''next'', refNode ''#/components/schemas/A'')] \<and>
        length [(''type'', JStr ''object''), (''next'', refNode ''#/components/schemas/A'')] = 1)"
    "distinct (map fst [(''type'', JStr ''object''), (''next'', refNode ''#/components/schemas/A'')])"
    "map_of [(''type'', JStr ''object''), (''next'', refNode ''#/components/schemas/A'')] ''next''
       = Some (refNode ''#/components/schemas/A'')"
    by (simp_all add: polymorphicKeyword_def has_key_def)
  have returned:
    "fst (resolveRefs (refNode ''#/components/schemas/A'') cyclic_example_root [] [] False) \<noteq>
       Inl Unmodelled"
    by (simp add: self_reference_example_result)
  show ?thesis
    using self_reference_gets_placeholder [OF root a,
        of "[''#/components/schemas/A'']" "[]" "[]" "''next''"]
      self_reference_gets_placeholder [OF root b,
        of "[]" "[]" "[]" "''next''"]
      self_reference_gets_placeholder [OF root a,
        of "[]" "[]" "[(''type'', JStr ''object''), (''next'', refNode ''#/components/schemas/A'')]"
           "''next''"]
      shape fresh returned itself
    by (simp add: cyclic_example_lookups replaced)
qed

section \<open>Termination of reference resolution\<close>

text \<open>
  The resolution stack of a call of the resolver, of its loop over the items of an array,
  or of its loop over the entries of an object.
\<close>

fun call_stack ::
  "json \<times> json \<times> string list \<times> memo \<times> bool +
   json list \<times> json \<times> string list \<times> memo \<times> bool +
   (string \<times> json) list \<times> string option \<times> (string \<times> json) list \<times> json \<times> string list \<times>
     memo \<times> bool \<Rightarrow> string list" where
  "call_stack (Inl (obj, root, resolutionStack, memo, inside)) = resolutionStack"
| "call_stack (Inr (Inl (items, root, resolutionStack, memo, inside))) = resolutionStack"
| "call_stack (Inr (Inr (kvs, skip, result, root, resolutionStack, memo, inside))) =
     resolutionStack"

definition looping_example_root :: json where
  "looping_example_root =
     JObj [(''definitions'',
            JObj [(''A'', JObj [(''b'', refNode ''#/definitions/B'')]),
                  (''B'', JObj [(''a'', refNode ''#/definitions/A'')])])]"

lemma call_keeps_stack_distinct:
  "resolveRefs_resolveItems_resolveEntries_rel x y \<Longrightarrow> distinct (call_stack y) \<Longrightarrow>
   distinct (call_stack x)"
  by (erule resolveRefs_resolveItems_resolveEntries_rel.cases) auto

lemma nested_call_keeps_stack_distinct:
  "resolveRefs_resolveItems_resolveEntries_rel\<^sup>*\<^sup>* x y \<Longrightarrow> distinct (call_stack y) \<Longrightarrow>
   distinct (call_stack x)"
  by (induction rule: converse_rtranclp_induct) (auto intro: call_keeps_stack_distinct)

lemma looping_example_lookups:
  "lookupRef looping_example_root ''#/definitions/A'' =
     Inr (JObj [(''b'', refNode ''#/definitions/B'')])"
  "lookupRef looping_example_root ''#/definitions/B'' =
     Inr (JObj [(''a'', refNode ''#/definitions/A'')])"
  by (simp_all add: looping_example_root_def lookupRef_def startsWith_def is_object_def
      js_in_def has_key_def getProp_def)

lemma looping_example_result:
  "resolveRefs (refNode ''#/definitions/A'') looping_example_root [] [] False =
     (Inr (JObj [(''b'', JObj [(''a'', circularPlaceholder)])]),
      [(''#/definitions/A'', JObj [(''b'', JObj [(''a'', circularPlaceholder)])]),
       (''#/definitions/B'', JObj [(''a'', circularPlaceholder)])])"
proof -
  have root: "looping_example_root \<noteq> JUndefined"
    by (simp add: looping_example_root_def)
  have a_again: "resolveRefs (refNode ''#/definitions/A'') looping_example_root
      [''#/definitions/A'', ''#/definitions/B''] [] False =
     (Inr circularPlaceholder, [(''#/definitions/A'', circularPlaceholder)])"
    by (simp add: resolveRefs_refNode_cycle [OF root] startsWith_def has_key_def)
  have b_body: "resolveRefs (JObj [(''a'', refNode ''#/definitions/A'')]) looping_example_root
      [''#/definitions/A'', ''#/definitions/B''] [] False =
     (Inr (JObj [(''a'', circularPlaceholder)]), [(''#/definitions/A'', circularPlaceholder)])"
    by (simp add: resolveRefs_plain [OF root] polymorphicKeyword_def has_key_def setProp_def
        entries_plain_keys
        a_again)
  have b_ref: "resolveRefs (refNode ''#/definitions/B'') looping_example_root
      [''#/definitions/A''] [] False =
     (Inr (JObj [(''a'', circularPlaceholder)]),
      [(''#/definitions/A'', circularPlaceholder),
       (''#/definitions/B'', JObj [(''a'', circularPlaceholder)])])"
    by (subst resolveRefs_refNode_follow [OF root, where target =
          "JObj [(''a'', refNode ''#/definitions/A'')]"])
       (simp_all add: looping_example_lookups startsWith_def has_key_def b_body)
  have a_body: "resolveRefs (JObj [(''b'', refNode ''#/definitions/B'')]) looping_example_root
      [''#/definitions/A''] [] False =
     (Inr (JObj [(''b'', JObj [(''a'', circularPlaceholder)])]),
      [(''#/definitions/A'', circularPlaceholder),
       (''#/definitions/B'', JObj [(''a'', circularPlaceholder)])])"
    by (simp add: resolveRefs_plain [OF root] polymorphicKeyword_def has_key_def setProp_def
        entries_plain_keys
        b_ref)
  show ?thesis
    by (subst resolveRefs_refNode_follow [OF root, where target =
          "JObj [(''b'', refNode ''#/definitions/B'')]"])
       (simp_all add: looping_example_lookups startsWith_def has_key_def a_body)
qed

text \<open>
  C4. Reference resolution terminates on every input: the relation "is a call made by"
  between the calls of the resolver and of its two loops, which the definition of
  \<open>resolveRefs\<close> generates, is well-founded, so there is no infinite chain of nested
  calls whatever the document, and \<open>resolveRefs\<close> is a total function. The stack
  membership check is what bounds the nesting: in every call made, directly or not, by a
  call whose stack has no pointer twice, the stack has no pointer twice; and a reference
  to a pointer that is on the stack is answered without any recursive call, by the node
  itself (under a polymorphic keyword, when the test there keeps it), by the memoized
  value, or by the cycle placeholder, which is memoized.
\<close>

theorem resolution_terminates:
  "wfp resolveRefs_resolveItems_resolveEntries_rel \<and>
   (distinct st \<longrightarrow>
      resolveRefs_resolveItems_resolveEntries_rel\<^sup>*\<^sup>* x (Inl (obj, root, st, memo, b)) \<longrightarrow>
      distinct (call_stack x)) \<and>
   (root \<noteq> JUndefined \<longrightarrow> startsWith p ''#/'' \<longrightarrow> p \<in> set st \<longrightarrow>
      resolveRefs (refNode p) root st memo b =
        (case keepTest b root p of
           Inl e \<Rightarrow> (Inl e, memo)
         | Inr kept \<Rightarrow>
             if kept then (Inr (refNode p), memo)
             else if has_key p memo then (Inr (getProp (JObj memo) p), memo)
             else (Inr circularPlaceholder, AList.update p circularPlaceholder memo)))"
proof (intro conjI impI)
  show "wfp resolveRefs_resolveItems_resolveEntries_rel"
    using resolveRefs_dom_all by (intro accp_wfpI) simp
next
  assume "distinct st"
    and "resolveRefs_resolveItems_resolveEntries_rel\<^sup>*\<^sup>* x (Inl (obj, root, st, memo, b))"
  then show "distinct (call_stack x)"
    using nested_call_keeps_stack_distinct by fastforce
next
  assume "root \<noteq> JUndefined" and "startsWith p ''#/''" and "p \<in> set st"
  then show "resolveRefs (refNode p) root st memo b =
        (case keepTest b root p of
           Inl e \<Rightarrow> (Inl e, memo)
         | Inr kept \<Rightarrow>
             if kept then (Inr (refNode p), memo)
             else if has_key p memo then (Inr (getProp (JObj memo) p), memo)
             else (Inr circularPlaceholder, AList.update p circularPlaceholder memo))"
    by (simp add: resolveRefs_refNode keepTest_def split: sum.splits)
qed

theorem resolution_terminates_witness:
  "distinct ([] :: string list) \<and>
   resolveRefs_resolveItems_resolveEntries_rel\<^sup>*\<^sup>*
     (Inl (JObj [(''b'', refNode ''#/definitions/B'')], looping_example_root,
           [''#/definitions/A''], [], False))
     (Inl (refNode ''#/definitions/A'', looping_example_root, [], [], False)) \<and>
   distinct (call_stack
     (Inl (JObj [(''b'', refNode ''#/definitions/B'')], looping_example_root,
           [''#/definitions/A''], [], False))) \<and>
   looping_example_root \<noteq> JUndefined \<and> startsWith ''#/definitions/A'' ''#/'' \<and>
   ''#/definitions/A'' \<in> set [''#/definitions/A'', ''#/definitions/B''] \<and>
   resolveRefs (refNode ''#/definitions/A'') looping_example_root
     [''#/definitions/A'', ''#/definitions/B''] [] False =
     (Inr circularPlaceholder, [(''#/definitions/A'', circularPlaceholder)])"
proof -
  have root: "looping_example_root \<noteq> JUndefined"
    by (simp add: looping_example_root_def)
  have call: "resolveRefs_resolveItems_resolveEntries_rel
     (Inl (JObj [(''b'', refNode ''#/definitions/B'')], looping_example_root,
           [] @ [''#/definitions/A''], [], False))
     (Inl (refNode ''#/definitions/A'', looping_example_root, [], [], False))"
    by (rule resolveRefs_resolveItems_resolveEntries_rel.intros(2)
          [where ?x7.0 = "[(''$ref'', JStr ''#/definitions/A'')]" and b = False])
       (simp_all add: root refNode_def polymorphicKeyword_def has_key_def getProp_def
          startsWith_def looping_example_lookups [unfolded refNode_def])
  then have nested: "resolveRefs_resolveItems_resolveEntries_rel\<^sup>*\<^sup>*
     (Inl (JObj [(''b'', refNode ''#/definitions/B'')], looping_example_root,
           [''#/definitions/A''], [], False))
     (Inl (refNode ''#/definitions/A'', looping_example_root, [], [], False))"
    by simp
  show ?thesis
    using resolution_terminates
      [of "[]" "Inl (JObj [(''b'', refNode ''#/definitions/B'')], looping_example_root,
           [''#/definitions/A''], [], False)" "refNode ''#/definitions/A''"
         looping_example_root "[]" False "''#/definitions/A''"]
      resolution_terminates
      [of "[''#/definitions/A'', ''#/definitions/B'']" x "refNode ''#/definitions/A''"
         looping_example_root "[]" False "''#/definitions/A''" for x]
      root nested
    by (simp add: startsWith_def has_key_def)
qed

section \<open>The identity law on trees without references\<close>

definition property_named_anyOf :: json where
  "property_named_anyOf =
     JObj [(''type'', JStr ''object''),
           (''properties'', JObj [(''anyOf'', JObj [(''type'', JStr ''string'')])])]"

lemma resolveRefs_default_root:
  "obj \<noteq> JUndefined \<Longrightarrow> resolveRefs obj JUndefined st memo b = resolveRefs obj obj st memo b"
  by (simp add: resolveRefs.simps [of obj JUndefined] resolveRefs.simps [of obj obj])

text \<open>
  C6 (the program departs from it). The claim: the resolver is the identity on every tree
  that contains no \<^verbatim>\<open>$ref\<close> key. What the program does: an object that has a key
  \<^verbatim>\<open>anyOf\<close>, \<^verbatim>\<open>oneOf\<close> or \<^verbatim>\<open>allOf\<close> is taken for a composition whatever its place in
  the tree, and \<^verbatim>\<open>.map\<close> is called on the value of the key. For the schema of an object
  that has a property named \<^verbatim>\<open>anyOf\<close> the value is not an array and the call throws a
  \<^verbatim>\<open>TypeError\<close>, whatever the root, the stack, the memo and the flag. The identity law
  does hold for the trees that have none of these keys and no key \<^verbatim>\<open>__proto__\<close>
  (stated for keys that are not array indices).
\<close>

theorem identity_law_fails_for_property_named_anyOf:
  "resolveRefs property_named_anyOf root st memo b = (Inl TypeError, memo) \<and>
   (plain_tree tree \<longrightarrow> resolveRefs tree root st memo b = (Inr tree, memo))"
proof
  have throws: "resolveRefs property_named_anyOf r st memo b = (Inl TypeError, memo)"
    if "r \<noteq> JUndefined" for r
    using that
    by (simp add: property_named_anyOf_def resolveRefs_plain resolveRefs_polymorphic
        polymorphicKeyword_def has_key_def getProp_def setProp_def resolveRefs_primitive
        is_object_def entries_plain_keys)
  show "resolveRefs property_named_anyOf root st memo b = (Inl TypeError, memo)"
  proof (cases "root = JUndefined")
    case True
    have "property_named_anyOf \<noteq> JUndefined"
      by (simp add: property_named_anyOf_def)
    with True throws show ?thesis
      by (simp add: resolveRefs_default_root)
  next
    case False
    then show ?thesis by (rule throws)
  qed
  show "plain_tree tree \<longrightarrow> resolveRefs tree root st memo b = (Inr tree, memo)"
  proof (cases "root = JUndefined")
    case True
    show ?thesis
    proof (cases "tree = JUndefined")
      case True
      then show ?thesis by (simp add: resolveRefs_primitive is_object_def)
    next
      case False
      with True plain_tree_identity(1) [of tree tree] show ?thesis
        by (simp add: resolveRefs_default_root)
    qed
  next
    case False
    then show ?thesis by (rule plain_tree_identity(1))
  qed
qed

theorem identity_law_fails_for_property_named_anyOf_witness:
  "plain_tree (JObj [(''type'', JStr ''object''),
      (''properties'', JObj [(''name'', JObj [(''type'', JStr ''string'')])]),
      (''required'', JArr [JStr ''name''])]) \<and>
   resolveRefs (JObj [(''type'', JStr ''object''),
      (''properties'', JObj [(''name'', JObj [(''type'', JStr ''string'')])]),
      (''required'', JArr [JStr ''name''])]) JUndefined [] [] False =
     (Inr (JObj [(''type'', JStr ''object''),
        (''properties'', JObj [(''name'', JObj [(''type'', JStr ''string'')])]),
        (''required'', JArr [JStr ''name''])]), []) \<and>
   resolveRefs property_named_anyOf JUndefined [] [] False = (Inl TypeError, [])"
  using identity_law_fails_for_property_named_anyOf
    [of JUndefined "[]" "[]" False
       "JObj [(''type'', JStr ''object''),
          (''properties'', JObj [(''name'', JObj [(''type'', JStr ''string'')])]),
          (''required'', JArr [JStr ''name''])]"]
  by (simp add: property_index_not_numeral)

section \<open>The name of a tool\<close>

text \<open>
  The fallback name that \<^verbatim>\<open>createToolFromOperation\<close> builds (lines 183-186): every
  \<^verbatim>\<open>/\<close> of the path becomes \<^verbatim>\<open>_\<close>, the braces are removed, the lower-cased method
  is put in front and the whole is normalised.
\<close>

definition fallbackName :: "string \<Rightarrow> string \<Rightarrow> string" where
  "fallbackName method path =
     normalizeToolName
       (toLowerCase method @
        filter (\<lambda>c. c \<notin> set ''{}'') (map (\<lambda>c. if c = CHR ''/'' then CHR ''_'' else c) path))"

text \<open>
  The fallback name in the specification's words: the lower-cased method followed by the
  path with \<^verbatim>\<open>/\<close>, \<^verbatim>\<open>{\<close> and \<^verbatim>\<open>}\<close> removed, normalised.
\<close>

definition fallbackName_spec :: "string \<Rightarrow> string \<Rightarrow> string" where
  "fallbackName_spec method path =
     normalizeToolName (toLowerCase method @ filter (\<lambda>c. c \<notin> set ''/{}'') path)"

text \<open>
  The operations that get the fallback name: the \<^verbatim>\<open>operationId\<close> is absent or falsy, or
  it is a string whose normalised form is not a valid name.
\<close>

definition needs_fallback :: "json \<Rightarrow> bool" where
  "needs_fallback operationId =
     (case operationId of
        JStr s \<Rightarrow> \<not> isValidToolName (normalizeToolName s)
      | _ \<Rightarrow> \<not> truthy operationId)"

lemma normalizeToolName_examples:
  "normalizeToolName ''get_users_id'' = ''getUsersId''"
  "normalizeToolName ''getusersid'' = ''getusersid''"
  "normalizeToolName ''1_x'' = ''1X''"
  by (simp_all add: normalizeToolName_def is_lower_def is_upper_def is_digit_def is_separator_def
      capitalize_def toLowerCase_def lower_char_def upper_char_def)

lemma isValidToolName_examples:
  "isValidToolName ''getUsersId''" "\<not> isValidToolName ''1X''"
  by (simp_all add: isValidToolName_def is_lower_def is_upper_def is_digit_def)

lemma fallbackName_examples:
  "fallbackName ''get'' ''/users/{id}'' = ''getUsersId''"
  "fallbackName_spec ''get'' ''/users/{id}'' = ''getusersid''"
  "fallbackName ''1'' ''/x'' = ''1X''"
  by (simp_all add: fallbackName_def fallbackName_spec_def toLowerCase_def lower_char_def
      normalizeToolName_examples)

lemma assembleTool_name:
  "assembleTool specVersion toolName path method operation specData memoCache = (Inr (Some tool), memo') \<Longrightarrow>
   tool_name tool = toolName"
  by (auto simp: assembleTool_def Let_def split: prod.splits sum.splits)

lemma isValidToolName_nonempty:
  "isValidToolName name \<Longrightarrow> name \<noteq> []"
  by (auto simp: isValidToolName_def)

lemma createToolFromOperation_fallback:
  assumes "truthy operation" and "is_object operation"
    and "needs_fallback (getProp operation ''operationId'')"
  shows "createToolFromOperation specVersion path method operation specData memoCache =
     (if isValidToolName (fallbackName method path)
      then assembleTool specVersion (fallbackName method path) path method operation specData
             memoCache
      else (Inr None, memoCache))"
proof -
  have str: "truthy (JStr s) \<longleftrightarrow> s \<noteq> []" for s
    by (simp add: truthy_def)
  have none: "\<not> truthy JNull"
    by (simp add: truthy_def)
  show ?thesis
    using assms none
    by (cases "getProp operation ''operationId''")
       (auto simp: createToolFromOperation_def needs_fallback_def fallbackName_def Let_def str
          dest: isValidToolName_nonempty)
qed

text \<open>
  C2, the claim as worded is refuted: for \<^verbatim>\<open>GET /users/{id}\<close> without
  \<^verbatim>\<open>operationId\<close> the tool is named \<^verbatim>\<open>getUsersId\<close>, while the method followed by the
  path with \<^verbatim>\<open>/\<close>, \<^verbatim>\<open>{\<close>, \<^verbatim>\<open>}\<close> removed normalises to \<^verbatim>\<open>getusersid\<close>.
\<close>

theorem fallback_name_counterexample:
  "map_sum id (map_option tool_name)
     (fst (createToolFromOperation ''openapi_3.0'' ''/users/{id}'' ''get'' (JObj []) (JObj []) [])) =
     Inr (Some ''getUsersId'') \<and>
   needs_fallback (getProp (JObj []) ''operationId'') \<and>
   fallbackName_spec ''get'' ''/users/{id}'' = ''getusersid''"
proof -
  have "createToolFromOperation ''openapi_3.0'' ''/users/{id}'' ''get'' (JObj []) (JObj []) [] =
      assembleTool ''openapi_3.0'' ''getUsersId'' ''/users/{id}'' ''get'' (JObj []) (JObj []) []"
    by (subst createToolFromOperation_fallback)
       (simp_all add: truthy_def is_object_def needs_fallback_def getProp_def
          fallbackName_examples isValidToolName_examples)
  moreover have "map_sum id (map_option tool_name)
      (fst (assembleTool ''openapi_3.0'' ''getUsersId'' ''/users/{id}'' ''get'' (JObj []) (JObj []) [])) =
      Inr (Some ''getUsersId'')"
    by (simp add: assembleTool_def parseParameters_def iterate_def requestBodyParameters_def
        toUpperCase_def upper_char_def entries_def js_or_def truthy_def getProp_def)
  ultimately show ?thesis
    by (simp add: needs_fallback_def getProp_def truthy_def fallbackName_examples)
qed

text \<open>
  C2, amended. For every operation whose \<^verbatim>\<open>operationId\<close> is absent or falsy, or is a
  string whose normalised form is invalid, the name is the normalised form of the
  lower-cased method followed by the path in which every \<^verbatim>\<open>/\<close> is replaced by \<^verbatim>\<open>_\<close>
  and \<^verbatim>\<open>{\<close>, \<^verbatim>\<open>}\<close> are removed: if that name is valid the tool is the one assembled
  under it, and every tool returned bears it; if it is invalid, no tool is returned, nothing
  is thrown, and the loop over the operations of the path goes on with the tools it had.
\<close>

theorem fallback_tool_name:
  assumes "truthy operation" and "is_object operation"
    and "needs_fallback (getProp operation ''operationId'')"
  shows "createToolFromOperation specVersion path method operation specData memoCache =
           (if isValidToolName (fallbackName method path)
            then assembleTool specVersion (fallbackName method path) path method operation
                   specData memoCache
            else (Inr None, memoCache)) \<and>
         (\<forall>tool memo'.
            createToolFromOperation specVersion path method operation specData memoCache =
              (Inr (Some tool), memo') \<longrightarrow>
            tool_name tool = fallbackName method path) \<and>
         (\<not> isValidToolName (fallbackName method path) \<longrightarrow>
            operationsLoop specVersion path ((method, operation) # rest) specData tools memoCache =
              operationsLoop specVersion path rest specData tools memoCache)"
proof (intro conjI allI impI)
  show eq: "createToolFromOperation specVersion path method operation specData memoCache =
      (if isValidToolName (fallbackName method path)
       then assembleTool specVersion (fallbackName method path) path method operation
              specData memoCache
       else (Inr None, memoCache))"
    using assms by (rule createToolFromOperation_fallback)
  show "tool_name tool = fallbackName method path"
    if "createToolFromOperation specVersion path method operation specData memoCache =
      (Inr (Some tool), memo')" for tool memo'
    using that eq assembleTool_name by (auto split: if_splits)
  show "operationsLoop specVersion path ((method, operation) # rest) specData tools memoCache =
      operationsLoop specVersion path rest specData tools memoCache"
    if "\<not> isValidToolName (fallbackName method path)"
    using that eq by simp
qed

theorem fallback_tool_name_witness:
  "truthy (JObj [(''operationId'', JStr ''---'')]) \<and>
   is_object (JObj [(''operationId'', JStr ''---'')]) \<and>
   needs_fallback (getProp (JObj [(''operationId'', JStr ''---'')]) ''operationId'') \<and>
   isValidToolName (fallbackName ''get'' ''/users/{id}'') \<and>
   fallbackName ''get'' ''/users/{id}'' = ''getUsersId'' \<and>
   createToolFromOperation ''swagger_2'' ''/users/{id}'' ''get''
     (JObj [(''operationId'', JStr ''---'')]) (JObj []) [] =
     assembleTool ''swagger_2'' ''getUsersId'' ''/users/{id}'' ''get''
       (JObj [(''operationId'', JStr ''---'')]) (JObj []) [] \<and>
   \<not> isValidToolName (fallbackName ''1'' ''/x'') \<and>
   createToolFromOperation ''swagger_2'' ''/x'' ''1''
     (JObj [(''operationId'', JStr ''---'')]) (JObj []) [] = (Inr None, [])"
proof -
  have sep: "normalizeToolName ''---'' = ''---''"
    by (simp add: normalizeToolName_def is_lower_def is_upper_def is_digit_def is_separator_def)
  have needs: "needs_fallback (getProp (JObj [(''operationId'', JStr ''---'')]) ''operationId'')"
    by (simp add: needs_fallback_def getProp_def sep isValidToolName_def is_lower_def
        is_upper_def)
  have op: "truthy (JObj [(''operationId'', JStr ''---'')])"
    "is_object (JObj [(''operationId'', JStr ''---'')])"
    by (simp_all add: truthy_def is_object_def)
  show ?thesis
    using fallback_tool_name [OF op needs, of "''swagger_2''" "''/users/{id}''" "''get''" "JObj []" "[]"]
      fallback_tool_name [OF op needs, of "''swagger_2''" "''/x''" "''1''" "JObj []" "[]"]
      op needs
    by (simp add: fallbackName_examples isValidToolName_examples)
qed

section \<open>The response schema of an operation\<close>

text \<open>
  Where the schema of a response is, by version (lines 440-452): in \<^verbatim>\<open>response.schema\<close>
  for Swagger 2, in \<^verbatim>\<open>response.content["application/json"].schema\<close> for OpenAPI 3.x,
  with \<^verbatim>\<open>{}\<close> for a falsy \<^verbatim>\<open>content\<close>.
\<close>

definition responseSchemaOf :: "string \<Rightarrow> json \<Rightarrow> json" where
  "responseSchemaOf specVersion response =
     (if specVersion = ''swagger_2'' then getProp response ''schema''
      else getProp (getProp (js_or (getProp response ''content'') (JObj [])) ''application/json'')
             ''schema'')"

text \<open>
  The responses from which the program takes the schema: the status code starts with
  \<^verbatim>\<open>2\<close>, the response is an object, and the schema is there and truthy.
\<close>

definition successWithSchema :: "string \<Rightarrow> string \<times> json \<Rightarrow> bool" where
  "successWithSchema specVersion entry =
     (startsWith (fst entry) ''2'' \<and> is_object (snd entry) \<and>
      truthy (responseSchemaOf specVersion (snd entry)))"

text \<open>
  The extraction in the specification's words, for the entries of \<^verbatim>\<open>responses\<close> in the
  order of their insertion: the resolved schema of the first key whose prefix is \<^verbatim>\<open>2\<close>,
  and no schema if no key matches.
\<close>

definition parseResponses_spec ::
  "string \<Rightarrow> (string \<times> json) list \<Rightarrow> json \<Rightarrow> memo \<Rightarrow> (error + json) \<times> memo" where
  "parseResponses_spec specVersion inserted specData memoCache =
     (case find (\<lambda>entry. startsWith (fst entry) ''2'') inserted of
        None \<Rightarrow> (Inr JUndefined, memoCache)
      | Some entry \<Rightarrow>
          resolveRefs (responseSchemaOf specVersion (snd entry)) specData [] memoCache False)"

definition json_response :: "string \<Rightarrow> json" where
  "json_response schemaType =
     JObj [(''description'', JStr ''done''),
           (''content'',
            JObj [(''application/json'',
                   JObj [(''schema'', JObj [(''type'', JStr schemaType)])])])]"

definition first_without_schema :: "(string \<times> json) list" where
  "first_without_schema =
     [(''200'', JObj [(''description'', JStr ''done'')]), (''201'', json_response ''string'')]"

definition created_before_ok :: "(string \<times> json) list" where
  "created_before_ok = [(''201'', json_response ''string''), (''200'', json_response ''integer'')]"

lemma schema_of_falsy_content:
  "\<not> truthy jsonContent \<Longrightarrow> \<not> truthy (getProp jsonContent ''schema'')"
  by (cases jsonContent) (auto simp: truthy_def getProp_def split: option.splits)

lemma schema_with_content:
  "truthy jsonContent \<and> truthy (getProp jsonContent ''schema'') \<longleftrightarrow>
   truthy (getProp jsonContent ''schema'')"
  using schema_of_falsy_content by blast

lemma resolve_type_schema:
  "resolveRefs (JObj [(''type'', JStr schemaType)]) (JObj []) [] [] False =
     (Inr (JObj [(''type'', JStr schemaType)]), [])"
  by (simp add: resolveRefs_plain polymorphicKeyword_def has_key_def resolveRefs_primitive
      is_object_def setProp_def entries_plain_keys)

lemma status_code_indices:
  "property_index ''200'' = Some 200" "property_index ''201'' = Some 201"
  "property_index ''404'' = Some 404"
  by (simp_all add: property_index_def array_index_def digit_val_digits)

lemma entries_examples:
  "entries (JObj first_without_schema) = first_without_schema"
  "entries (JObj created_before_ok) =
     [(''200'', json_response ''integer''), (''201'', json_response ''string'')]"
  by (simp_all add: entries_def own_entries_def index_key_def index_value_def
      status_code_indices first_without_schema_def created_before_ok_def)

lemma json_response_schema:
  "is_object (json_response schemaType)"
  "responseSchemaOf ''openapi_3.0'' (json_response schemaType) = JObj [(''type'', JStr schemaType)]"
  by (simp_all add: json_response_def responseSchemaOf_def is_object_def js_or_def truthy_def
      getProp_def)

lemma parseResponses_find:
  "parseResponses specVersion responses specData memoCache =
     (case find (successWithSchema specVersion) responses of
        None \<Rightarrow> (Inr JUndefined, memoCache)
      | Some entry \<Rightarrow>
          resolveRefs (responseSchemaOf specVersion (snd entry)) specData [] memoCache False)"
proof (induction responses)
  case Nil
  show ?case by simp
next
  case (Cons entry rest)
  obtain statusCode response where entry: "entry = (statusCode, response)"
    by (cases entry)
  have step: "parseResponses specVersion (entry # rest) specData memoCache =
      (if successWithSchema specVersion entry
       then resolveRefs (responseSchemaOf specVersion (snd entry)) specData [] memoCache False
       else parseResponses specVersion rest specData memoCache)"
  proof (cases "specVersion = ''swagger_2''")
    case True
    then show ?thesis
      by (simp add: entry successWithSchema_def responseSchemaOf_def)
  next
    case False
    then show ?thesis
      by (simp add: entry successWithSchema_def responseSchemaOf_def Let_def
          schema_with_content)
  qed
  show ?case
    unfolding step using Cons by simp
qed

text \<open>
  C3, the claim as worded is refuted, twice. When the first response whose code starts
  with \<^verbatim>\<open>2\<close> has no schema, the program does not stop there with no schema: it goes on
  and returns the schema of a later response (here that of \<^verbatim>\<open>201\<close>). And the responses
  are not scanned in the order of their insertion: for \<^verbatim>\<open>201\<close> inserted before
  \<^verbatim>\<open>200\<close>, \<^verbatim>\<open>Object.entries\<close> gives \<^verbatim>\<open>200\<close> first and the program returns the schema
  of \<^verbatim>\<open>200\<close>.
\<close>

theorem response_schema_counterexample:
  "parseResponses ''openapi_3.0'' (entries (JObj first_without_schema)) (JObj []) [] =
     (Inr (JObj [(''type'', JStr ''string'')]), []) \<and>
   parseResponses_spec ''openapi_3.0'' first_without_schema (JObj []) [] = (Inr JUndefined, []) \<and>
   parseResponses ''openapi_3.0'' (entries (JObj created_before_ok)) (JObj []) [] =
     (Inr (JObj [(''type'', JStr ''integer'')]), []) \<and>
   parseResponses_spec ''openapi_3.0'' created_before_ok (JObj []) [] =
     (Inr (JObj [(''type'', JStr ''string'')]), [])"
proof -
  have without: "\<not> successWithSchema ''openapi_3.0'' (code, JObj [(''description'', JStr ''done'')])"
    for code
    by (simp add: successWithSchema_def responseSchemaOf_def js_or_def truthy_def getProp_def)
  have with_schema: "successWithSchema ''openapi_3.0'' (code, json_response schemaType) \<longleftrightarrow>
      startsWith code ''2''" for code schemaType
    by (simp add: successWithSchema_def json_response_schema truthy_def)
  have code: "startsWith ''200'' ''2''" "startsWith ''201'' ''2''"
    by (simp_all add: startsWith_def)
  have no_schema: "responseSchemaOf ''openapi_3.0'' (JObj [(''description'', JStr ''done'')]) =
      JUndefined"
    by (simp add: responseSchemaOf_def js_or_def truthy_def getProp_def)
  show ?thesis
    unfolding entries_examples parseResponses_find parseResponses_spec_def
    by (simp add: first_without_schema_def created_before_ok_def without with_schema code
        json_response_schema no_schema resolve_type_schema resolveRefs_primitive is_object_def)
qed

text \<open>
  C3, amended. For every operation, the responses are scanned in the order in which
  \<^verbatim>\<open>Object.entries\<close> enumerates them (the keys that are array indices, as status codes
  are, in ascending numeric order, then the other keys in the order of their insertion),
  and the result is the resolved schema of the first response whose key has the prefix
  \<^verbatim>\<open>2\<close>, that is an object, and that has a truthy schema at the place of its version; the
  responses with the prefix \<^verbatim>\<open>2\<close> but without such a schema are passed over. If no
  response qualifies, in particular if no key has the prefix \<^verbatim>\<open>2\<close>, the result is
  \<^verbatim>\<open>undefined\<close> and nothing is thrown.
\<close>

theorem response_schema_first_success_with_schema:
  "parseResponses specVersion (entries responses) specData memoCache =
     (case find (successWithSchema specVersion) (entries responses) of
        None \<Rightarrow> (Inr JUndefined, memoCache)
      | Some entry \<Rightarrow>
          resolveRefs (responseSchemaOf specVersion (snd entry)) specData [] memoCache False) \<and>
   ((\<forall>entry \<in> set (entries responses). \<not> startsWith (fst entry) ''2'') \<longrightarrow>
      parseResponses specVersion (entries responses) specData memoCache =
        (Inr JUndefined, memoCache))"
proof
  show first: "parseResponses specVersion (entries responses) specData memoCache =
     (case find (successWithSchema specVersion) (entries responses) of
        None \<Rightarrow> (Inr JUndefined, memoCache)
      | Some entry \<Rightarrow>
          resolveRefs (responseSchemaOf specVersion (snd entry)) specData [] memoCache False)"
    by (rule parseResponses_find)
  show "(\<forall>entry \<in> set (entries responses). \<not> startsWith (fst entry) ''2'') \<longrightarrow>
      parseResponses specVersion (entries responses) specData memoCache =
        (Inr JUndefined, memoCache)"
  proof
    assume "\<forall>entry \<in> set (entries responses). \<not> startsWith (fst entry) ''2''"
    then have "find (successWithSchema specVersion) (entries responses) = None"
      by (auto simp: find_None_iff successWithSchema_def)
    with first show "parseResponses specVersion (entries responses) specData memoCache =
        (Inr JUndefined, memoCache)"
      by simp
  qed
qed

theorem response_schema_first_success_with_schema_witness:
  "parseResponses ''openapi_3.0'' (entries (JObj created_before_ok)) (JObj []) [] =
     resolveRefs (JObj [(''type'', JStr ''integer'')]) (JObj []) [] [] False \<and>
   list_all (\<lambda>entry. \<not> startsWith (fst entry) ''2'')
     (entries (JObj [(''404'', JObj [(''schema'', JObj [(''type'', JStr ''string'')])])])) \<and>
   parseResponses ''swagger_2''
     (entries (JObj [(''404'', JObj [(''schema'', JObj [(''type'', JStr ''string'')])])]))
     (JObj []) [] = (Inr JUndefined, [])"
proof -
  have not_found: "entries (JObj [(''404'', JObj [(''schema'', JObj [(''type'', JStr ''string'')])])]) =
      [(''404'', JObj [(''schema'', JObj [(''type'', JStr ''string'')])])]"
    by (simp add: entries_def own_entries_def index_key_def index_value_def status_code_indices)
  have with_schema: "successWithSchema ''openapi_3.0'' (code, json_response schemaType) \<longleftrightarrow>
      startsWith code ''2''" for code schemaType
    by (simp add: successWithSchema_def json_response_schema truthy_def)
  have code: "startsWith ''200'' ''2''" "\<not> startsWith ''404'' ''2''"
    by (simp_all add: startsWith_def)
  have not_found_success: "\<not> successWithSchema specVersion (''404'', response)"
    for specVersion response
    by (simp add: successWithSchema_def code)
  show ?thesis
    using response_schema_first_success_with_schema
        [of "''openapi_3.0''" "JObj created_before_ok" "JObj []" "[]"]
      response_schema_first_success_with_schema
        [of "''swagger_2''" "JObj [(''404'', JObj [(''schema'', JObj [(''type'', JStr ''string'')])])]"
            "JObj []" "[]"]
    unfolding entries_examples not_found
    by (simp add: with_schema code not_found_success json_response_schema
        del: parseResponses.simps)
qed

section \<open>Documents without a base URL\<close>



















end
